theory Spec2Isabelle
  imports Main "HOL-Library.AList"
begin

section \<open>The query tree\<close>

text \<open>
  The module \<^verbatim>\<open>directive-utils.ts\<close> works on the syntax tree of the \<^verbatim>\<open>graphql\<close>
  package. Every node is an object with a \<^verbatim>\<open>kind\<close>; the constructors below carry the
  name of the kind, the types the name of the TypeScript type. A \<^verbatim>\<open>NameNode\<close> is
  modelled by its \<^verbatim>\<open>value\<close>, a string. Source locations (\<^verbatim>\<open>loc\<close>) are left out.
  Only executable definitions (operations and fragments) are modelled: type-system
  definitions hold neither fields nor selection sets.
\<close>

datatype ValueNode =
    Variable string
  | IntValue string
  | FloatValue string
  | StringValue string
  | BooleanValue bool
  | NullValue
  | EnumValue string
  | ListValue "ValueNode list"
  | ObjectValue "(string \<times> ValueNode) list"

text \<open>
  \<^verbatim>\<open>getDirectiveType\<close> takes its argument as \<^verbatim>\<open>any\<close> and guards the read of the
  argument's value (\<^verbatim>\<open>?.value?.value\<close>), so the value of an argument is optional here.
\<close>

datatype ArgumentNode = Argument (argument_name: string) (argument_value: "ValueNode option")

datatype DirectiveNode = Directive (directive_name: string) (directive_arguments: "ArgumentNode list")

text \<open>
  An entry of a \<^verbatim>\<open>selections\<close> array is a selection node or, between the two passes of
  a rewrite, an array: \<^verbatim>\<open>visit\<close> stores the array a callback returns as one element
  of the parent's array. \<open>Array\<close> is that JavaScript array, not a node.
\<close>

datatype SelectionNode =
    Field FieldNode
  | FragmentSpread string "DirectiveNode list"
  | InlineFragment "string option" "DirectiveNode list" SelectionSetNode
  | Array "SelectionNode list"
and FieldNode =
    FieldNode (field_alias: "string option") (name: string) (arguments: "ArgumentNode list")
      (directives: "DirectiveNode list") (selectionSet: "SelectionSetNode option")
and SelectionSetNode =
    SelectionSet (selections: "SelectionNode list")

datatype TypeNode = NamedType string | ListType TypeNode | NonNullType TypeNode

datatype VariableDefinitionNode =
  VariableDefinition string TypeNode "ValueNode option" "DirectiveNode list"

datatype OperationTypeNode = Query | Mutation | Subscription

datatype DefinitionNode =
    OperationDefinition OperationTypeNode "string option" "VariableDefinitionNode list"
      "DirectiveNode list" SelectionSetNode
  | FragmentDefinition string string "DirectiveNode list" SelectionSetNode

text \<open>The argument of both entry points: \<^verbatim>\<open>DefinitionNode | DocumentNode\<close>.\<close>

datatype QueryNode = Document "DefinitionNode list" | Definition DefinitionNode

text \<open>\<^verbatim>\<open>ASTNode\<close>, the union of all node types, for \<^verbatim>\<open>nodeHasComputedDirectives\<close>.\<close>

datatype ASTNode =
    NameN string
  | QueryN QueryNode
  | VariableDefinitionN VariableDefinitionNode
  | SelectionSetN SelectionSetNode
  | SelectionN SelectionNode
  | ArgumentN ArgumentNode
  | ValueN ValueNode
  | DirectiveN DirectiveNode
  | TypeN TypeNode

text \<open>
  The property \<^verbatim>\<open>node.directives\<close>: present on operations, fragments, variable
  definitions, fields, fragment spreads and inline fragments, absent (\<open>None\<close>)
  on every other node and on an array.
\<close>

fun node_directives :: "ASTNode \<Rightarrow> DirectiveNode list option" where
  "node_directives (QueryN (Definition (OperationDefinition _ _ _ ds _))) = Some ds"
| "node_directives (QueryN (Definition (FragmentDefinition _ _ ds _))) = Some ds"
| "node_directives (VariableDefinitionN (VariableDefinition _ _ _ ds)) = Some ds"
| "node_directives (SelectionN (Field f)) = Some (directives f)"
| "node_directives (SelectionN (FragmentSpread _ ds)) = Some ds"
| "node_directives (SelectionN (InlineFragment _ ds _)) = Some ds"
| "node_directives _ = None"

section \<open>Errors and results\<close>

text \<open>
  The three \<^verbatim>\<open>throw new Error(...)\<close> of the source, named after the kinds of the
  specification's error table:
  \<^item> \<open>InvalidAnnotation\<close>: \<^verbatim>\<open>Invalid @computed directive found. No type specified\<close>;
  \<^item> \<open>UnknownEntityType t\<close>: \<^verbatim>\<open>No entity found for type "t"\<close>;
  \<^item> \<open>UnknownComputedField f t\<close>:
    \<^verbatim>\<open>No resolver found for @computed directive "f" in type "t"\<close>.
  \<open>TypeError\<close> is the runtime's error on reading a property of \<^verbatim>\<open>null\<close> or
  \<^verbatim>\<open>undefined\<close>. \<open>MissingDependency\<close> is the fourth kind of the specification's
  table; no statement of the source throws it.
\<close>

datatype error =
    InvalidAnnotation
  | UnknownEntityType string
  | UnknownComputedField string string
  | MissingDependency
  | TypeError

text \<open>
  A rewrite calls itself on the dependencies stored in the registry, and a cyclic
  registry makes it recurse for ever. The rewrites take fuel, one unit for each
  nested call; \<open>None\<close> is a call that ran out of fuel, \<open>Some (Inl e)\<close> a call that
  threw \<open>e\<close>, \<open>Some (Inr v)\<close> a call that returned \<open>v\<close>.
\<close>

type_synonym 'a outcome = "(error + 'a) option"

definition bind :: "'a outcome \<Rightarrow> ('a \<Rightarrow> 'b outcome) \<Rightarrow> 'b outcome" where
  "bind m k = (case m of None \<Rightarrow> None | Some (Inl e) \<Rightarrow> Some (Inl e) | Some (Inr v) \<Rightarrow> k v)"

section \<open>The registry\<close>

text \<open>
  \<^verbatim>\<open>Entities\<close> comes from \<^verbatim>\<open>./types\<close>; the source reads \<^verbatim>\<open>entities[type]\<close>,
  \<^verbatim>\<open>entityType.fields[name]\<close> and \<^verbatim>\<open>entityField.dependencies?.definitions[0]\<close>. An
  object used as a dictionary is modelled by the map of its own properties; the
  dependencies, a document, by the list of its definitions.
\<close>

datatype EntityField = EntityField (dependencies: "DefinitionNode list option")

datatype Entity = Entity (fields: "string \<rightharpoonup> EntityField")

type_synonym Entities = "string \<rightharpoonup> Entity"

text \<open>
  The registry, the field maps in it and the accumulator \<^verbatim>\<open>{}\<close> of the second pass
  are ordinary objects, as an object literal builds them: a read \<^verbatim>\<open>obj[key]\<close> finds
  the object's own property, or else the property of that name that every ordinary
  object inherits from \<^verbatim>\<open>Object.prototype\<close>, or else \<^verbatim>\<open>undefined\<close>. The inherited
  values are functions (for \<^verbatim>\<open>__proto__\<close>, the prototype object itself): they are
  not \<^verbatim>\<open>null\<close>, they have no property \<^verbatim>\<open>fields\<close> or \<^verbatim>\<open>dependencies\<close>, and they
  cannot be spread into an array.
\<close>

definition Object_prototype :: "string list" where
  "Object_prototype =
     [''constructor'', ''__defineGetter__'', ''__defineSetter__'', ''hasOwnProperty'',
      ''__lookupGetter__'', ''__lookupSetter__'', ''isPrototypeOf'', ''propertyIsEnumerable'',
      ''toString'', ''valueOf'', ''__proto__'', ''toLocaleString'']"

datatype 'a property = Own 'a | Inherited | Absent

definition read_property :: "(string \<rightharpoonup> 'a) \<Rightarrow> string \<Rightarrow> 'a property" where
  "read_property obj key =
     (case obj key of
        Some v \<Rightarrow> Own v
      | None \<Rightarrow> if key \<in> set Object_prototype then Inherited else Absent)"

section \<open>Node classifier\<close>

definition isNodeWithDirectives :: "ASTNode option \<Rightarrow> bool" where
  "isNodeWithDirectives node =
     (case node of None \<Rightarrow> False | Some n \<Rightarrow> node_directives n \<noteq> None)"

text \<open>
  The property \<^verbatim>\<open>value\<close> of a value node: a string on strings, numbers and enum
  values, a boolean on \<^verbatim>\<open>BooleanValue\<close>, absent on the others. The type name is only
  ever used as a property key and inside a message, both of which turn a boolean into
  \<^verbatim>\<open>"true"\<close> or \<^verbatim>\<open>"false"\<close>, so the model returns that string.
\<close>

fun value_value :: "ValueNode \<Rightarrow> string option" where
  "value_value (StringValue s) = Some s"
| "value_value (IntValue s) = Some s"
| "value_value (FloatValue s) = Some s"
| "value_value (EnumValue s) = Some s"
| "value_value (BooleanValue b) = Some (if b then ''true'' else ''false'')"
| "value_value _ = None"

definition getDirectiveType :: "DirectiveNode option \<Rightarrow> error + string" where
  "getDirectiveType directiveNode =
     (let typeName =
        (case directiveNode of
           None \<Rightarrow> None
         | Some d \<Rightarrow>
             (case directive_arguments d of
                [] \<Rightarrow> None
              | a # _ \<Rightarrow>
                  (case argument_value a of None \<Rightarrow> None | Some v \<Rightarrow> value_value v)))
      in case typeName of None \<Rightarrow> Inl InvalidAnnotation | Some t \<Rightarrow> Inr t)"

definition nodeHasComputedDirectives :: "ASTNode option \<Rightarrow> bool" where
  "nodeHasComputedDirectives node =
     (if \<not> isNodeWithDirectives node then False
      else (case node of
              None \<Rightarrow> False
            | Some n \<Rightarrow>
                (case node_directives n of
                   None \<Rightarrow> False
                 | Some ds \<Rightarrow> list_ex (\<lambda>d. directive_name d = ''computed'') ds)))"

section \<open>Fragment resolution\<close>

text \<open>
  \<^verbatim>\<open>replaceDirectiveByFragment\<close> and \<^verbatim>\<open>addFragmentToNode\<close> are closures inside the
  two entry points, with the same text but for the entry point they call at the end;
  \<open>self\<close> is that entry point, with the registry it was given. The tests
  \<^verbatim>\<open>entityType == null\<close> and \<^verbatim>\<open>entityField == null\<close> pass on an inherited value.
  After an inherited entity type, \<^verbatim>\<open>entityType.fields\<close> is \<^verbatim>\<open>undefined\<close> and the read
  of \<^verbatim>\<open>[fieldName]\<close> on it is a \<open>TypeError\<close>. After an inherited field,
  \<^verbatim>\<open>entityField.dependencies\<close> is \<^verbatim>\<open>undefined\<close>, and so is the fragment.
\<close>

definition first_definition :: "EntityField \<Rightarrow> QueryNode option" where
  "first_definition entityField =
     (case dependencies entityField of
        None \<Rightarrow> None
      | Some definitions \<Rightarrow> (case definitions of [] \<Rightarrow> None | d # _ \<Rightarrow> Some (Definition d)))"

definition replaceDirectiveByFragment ::
  "(QueryNode option \<Rightarrow> QueryNode option outcome) \<Rightarrow> Entities \<Rightarrow> FieldNode
     \<Rightarrow> QueryNode option outcome" where
  "replaceDirectiveByFragment self entities node =
     (let computedDirective = find (\<lambda>d. directive_name d = ''computed'') (directives node) in
      case getDirectiveType computedDirective of
        Inl e \<Rightarrow> Some (Inl e)
      | Inr directiveType \<Rightarrow>
          (case read_property entities directiveType of
             Absent \<Rightarrow> Some (Inl (UnknownEntityType directiveType))
           | Inherited \<Rightarrow> Some (Inl TypeError)
           | Own entityType \<Rightarrow>
               (let fieldName = name node in
                case read_property (fields entityType) fieldName of
                  Absent \<Rightarrow> Some (Inl (UnknownComputedField fieldName directiveType))
                | Inherited \<Rightarrow> self None
                | Own entityField \<Rightarrow> self (first_definition entityField))))"

definition addFragmentToNode ::
  "(QueryNode option \<Rightarrow> QueryNode option outcome) \<Rightarrow> Entities \<Rightarrow> FieldNode
     \<Rightarrow> QueryNode option outcome" where
  "addFragmentToNode self entities node =
     (let computedDirective = find (\<lambda>d. directive_name d = ''computed'') (directives node) in
      case getDirectiveType computedDirective of
        Inl e \<Rightarrow> Some (Inl e)
      | Inr directiveType \<Rightarrow>
          (case read_property entities directiveType of
             Absent \<Rightarrow> Some (Inl (UnknownEntityType directiveType))
           | Inherited \<Rightarrow> Some (Inl TypeError)
           | Own entityType \<Rightarrow>
               (let fieldName = name node in
                case read_property (fields entityType) fieldName of
                  Absent \<Rightarrow> Some (Inl (UnknownComputedField fieldName directiveType))
                | Inherited \<Rightarrow> self None
                | Own entityField \<Rightarrow> self (first_definition entityField))))"

text \<open>
  \<^verbatim>\<open>fragment.selectionSet.selections\<close>, read from what the entry point returned:
  \<^verbatim>\<open>null\<close> has no properties, and a document has no \<^verbatim>\<open>selectionSet\<close>.
\<close>

fun definition_selectionSet :: "DefinitionNode \<Rightarrow> SelectionSetNode" where
  "definition_selectionSet (OperationDefinition _ _ _ _ ss) = ss"
| "definition_selectionSet (FragmentDefinition _ _ _ ss) = ss"

fun fragment_selections :: "QueryNode option \<Rightarrow> SelectionNode list outcome" where
  "fragment_selections None = Some (Inl TypeError)"
| "fragment_selections (Some (Document _)) = Some (Inl TypeError)"
| "fragment_selections (Some (Definition d)) = Some (Inr (selections (definition_selectionSet d)))"

text \<open>
  The \<^verbatim>\<open>Field\<close> callbacks of the two first passes. \<open>None\<close> is \<^verbatim>\<open>undefined\<close> (leave
  the node alone), \<open>Some xs\<close> the array that takes the node's place.
\<close>

definition Field_replace ::
  "(QueryNode option \<Rightarrow> QueryNode option outcome) \<Rightarrow> Entities \<Rightarrow> FieldNode
     \<Rightarrow> SelectionNode list option outcome" where
  "Field_replace self entities node =
     (if \<not> nodeHasComputedDirectives (Some (SelectionN (Field node))) then Some (Inr None)
      else bind (replaceDirectiveByFragment self entities node) (\<lambda>fragment.
           bind (fragment_selections fragment) (\<lambda>sels. Some (Inr (Some sels)))))"

definition Field_add ::
  "(QueryNode option \<Rightarrow> QueryNode option outcome) \<Rightarrow> Entities \<Rightarrow> FieldNode
     \<Rightarrow> SelectionNode list option outcome" where
  "Field_add self entities node =
     (if \<not> nodeHasComputedDirectives (Some (SelectionN (Field node))) then Some (Inr None)
      else bind (addFragmentToNode self entities node) (\<lambda>fragment.
           bind (fragment_selections fragment) (\<lambda>sels. Some (Inr (Some (Field node # sels))))))"

section \<open>The first pass\<close>

text \<open>
  \<^verbatim>\<open>visit(query, { Field(node) {...} })\<close> of the \<^verbatim>\<open>graphql\<close> package walks the tree
  depth first and calls the callback on entering a node of kind \<^verbatim>\<open>Field\<close>. When the
  callback returns \<^verbatim>\<open>undefined\<close> the walk goes on into the node's children; when it
  returns an array, the array is stored in the node's place, as one element of the
  parent's array, and the walk does not go into the node nor into the array. An
  exception thrown by the callback ends the walk. An array met inside a
  \<^verbatim>\<open>selections\<close> array is walked element by element.
\<close>

fun visitField_node ::
      "(FieldNode \<Rightarrow> SelectionNode list option outcome) \<Rightarrow> SelectionNode \<Rightarrow> SelectionNode outcome"
  and visitField_list ::
      "(FieldNode \<Rightarrow> SelectionNode list option outcome) \<Rightarrow> SelectionNode list
         \<Rightarrow> SelectionNode list outcome"
  and visitField_set ::
      "(FieldNode \<Rightarrow> SelectionNode list option outcome) \<Rightarrow> SelectionSetNode
         \<Rightarrow> SelectionSetNode outcome"
where
  "visitField_node enter (Field (FieldNode a n args ds ss)) =
     bind (enter (FieldNode a n args ds ss)) (\<lambda>result.
       case result of
         Some array \<Rightarrow> Some (Inr (Array array))
       | None \<Rightarrow>
           (case ss of
              None \<Rightarrow> Some (Inr (Field (FieldNode a n args ds None)))
            | Some s \<Rightarrow>
                bind (visitField_set enter s) (\<lambda>s'.
                  Some (Inr (Field (FieldNode a n args ds (Some s')))))))"
| "visitField_node enter (FragmentSpread n ds) = Some (Inr (FragmentSpread n ds))"
| "visitField_node enter (InlineFragment tc ds s) =
     bind (visitField_set enter s) (\<lambda>s'. Some (Inr (InlineFragment tc ds s')))"
| "visitField_node enter (Array xs) =
     bind (visitField_list enter xs) (\<lambda>xs'. Some (Inr (Array xs')))"
| "visitField_list enter [] = Some (Inr [])"
| "visitField_list enter (x # xs) =
     bind (visitField_node enter x) (\<lambda>x'.
     bind (visitField_list enter xs) (\<lambda>xs'. Some (Inr (x' # xs'))))"
| "visitField_set enter (SelectionSet xs) =
     bind (visitField_list enter xs) (\<lambda>xs'. Some (Inr (SelectionSet xs')))"

fun visitField_definition ::
  "(FieldNode \<Rightarrow> SelectionNode list option outcome) \<Rightarrow> DefinitionNode \<Rightarrow> DefinitionNode outcome"
where
  "visitField_definition enter (OperationDefinition op n vs ds s) =
     bind (visitField_set enter s) (\<lambda>s'. Some (Inr (OperationDefinition op n vs ds s')))"
| "visitField_definition enter (FragmentDefinition n tc ds s) =
     bind (visitField_set enter s) (\<lambda>s'. Some (Inr (FragmentDefinition n tc ds s')))"

fun visitField_definitions ::
  "(FieldNode \<Rightarrow> SelectionNode list option outcome) \<Rightarrow> DefinitionNode list
     \<Rightarrow> DefinitionNode list outcome"
where
  "visitField_definitions enter [] = Some (Inr [])"
| "visitField_definitions enter (d # ds) =
     bind (visitField_definition enter d) (\<lambda>d'.
     bind (visitField_definitions enter ds) (\<lambda>ds'. Some (Inr (d' # ds'))))"

fun visitField :: "(FieldNode \<Rightarrow> SelectionNode list option outcome) \<Rightarrow> QueryNode \<Rightarrow> QueryNode outcome"
where
  "visitField enter (Document ds) =
     bind (visitField_definitions enter ds) (\<lambda>ds'. Some (Inr (Document ds')))"
| "visitField enter (Definition d) =
     bind (visitField_definition enter d) (\<lambda>d'. Some (Inr (Definition d')))"

section \<open>The second pass of replace-mode\<close>

text \<open>
  The callbacks of the second pass assign \<^verbatim>\<open>node.selections\<close> in place and return the
  node; \<^verbatim>\<open>visit\<close> copies a node before it changes it, \<^verbatim>\<open>mergeWith\<close> writes into a
  fresh object. The model is by value: a callback returns the node with its new
  selections; objects shared between trees are not modelled.
\<close>

text \<open>\<^verbatim>\<open>flatten\<close> of \<^verbatim>\<open>lodash\<close>: one level of nesting is removed.\<close>

fun flatten :: "SelectionNode list \<Rightarrow> SelectionNode list" where
  "flatten [] = []"
| "flatten (Array xs # rest) = xs @ flatten rest"
| "flatten (x # rest) = x # flatten rest"

text \<open>
  \<^verbatim>\<open>selection.kind === 'Field'\<close>; an array has no \<^verbatim>\<open>kind\<close>. \<open>asField\<close> is the same
  test as a type guard (\<^verbatim>\<open>selection is FieldNode\<close>).
\<close>

fun isField :: "SelectionNode \<Rightarrow> bool" where
  "isField (Field _) = True"
| "isField _ = False"

fun asField :: "SelectionNode \<Rightarrow> FieldNode option" where
  "asField (Field f) = Some f"
| "asField _ = None"

text \<open>
  \<^verbatim>\<open>field.alias?.value || field.name.value\<close>: the alias, unless it is absent or the
  empty string.
\<close>

definition responseKey :: "FieldNode \<Rightarrow> string" where
  "responseKey field =
     (case field_alias field of
        None \<Rightarrow> name field
      | Some a \<Rightarrow> if a = [] then name field else a)"

text \<open>
  The reducer \<^verbatim>\<open>acc[name] = [...(acc[name] || []), field]\<close>. The accumulator starts as
  \<^verbatim>\<open>{}\<close>; the association list holds its own properties, in the order in which they
  were first assigned, the order in which \<^verbatim>\<open>Object.values\<close> lists the values of keys
  that are names of the query language (a name never reads as an array index). For a
  name that the accumulator inherits and does not own, \<^verbatim>\<open>acc[name]\<close> is a function,
  \<^verbatim>\<open>acc[name] || []\<close> is that function, and spreading it is a \<open>TypeError\<close>.
\<close>

definition group_step ::
  "(string \<times> FieldNode list) list \<Rightarrow> FieldNode \<Rightarrow> error + (string \<times> FieldNode list) list" where
  "group_step acc field =
     (let name = responseKey field in
      case read_property (map_of acc) name of
        Own fs \<Rightarrow> Inr (AList.update name (fs @ [field]) acc)
      | Inherited \<Rightarrow> Inl TypeError
      | Absent \<Rightarrow> Inr (AList.update name ([] @ [field]) acc))"

text \<open>\<^verbatim>\<open>.reduce(..., {})\<close> with that reducer: a throw ends the reduction.\<close>

fun group_fields ::
  "(string \<times> FieldNode list) list \<Rightarrow> FieldNode list \<Rightarrow> error + (string \<times> FieldNode list) list" where
  "group_fields acc [] = Inr acc"
| "group_fields acc (field # fs) =
     (case group_step acc field of Inl e \<Rightarrow> Inl e | Inr acc' \<Rightarrow> group_fields acc' fs)"

text \<open>
  \<^verbatim>\<open>mergeWith(acc, field, customizer)\<close> of \<^verbatim>\<open>lodash\<close> on field nodes, with the
  customizer of the source, which concatenates when the destination value is an array.
  \<open>None\<close> is the empty object \<^verbatim>\<open>{}\<close> the reduction starts from: merging into it copies
  the field. Otherwise \<^verbatim>\<open>mergeWith\<close> goes through the properties of the source
  field: an \<^verbatim>\<open>undefined\<close> one leaves the destination's value, the arrays
  \<^verbatim>\<open>arguments\<close> and \<^verbatim>\<open>directives\<close> are concatenated, the objects \<^verbatim>\<open>alias\<close>,
  \<^verbatim>\<open>name\<close> and \<^verbatim>\<open>selectionSet\<close> are merged property by property, which overwrites
  the strings in them and concatenates the array \<^verbatim>\<open>selections\<close>.
\<close>

fun mergeWith :: "FieldNode option \<Rightarrow> FieldNode \<Rightarrow> FieldNode" where
  "mergeWith None field = field"
| "mergeWith (Some (FieldNode a1 n1 args1 ds1 ss1)) (FieldNode a2 n2 args2 ds2 ss2) =
     FieldNode (case a2 of None \<Rightarrow> a1 | Some a \<Rightarrow> Some a) n2 (args1 @ args2) (ds1 @ ds2)
       (case ss2 of
          None \<Rightarrow> ss1
        | Some (SelectionSet s2) \<Rightarrow>
            (case ss1 of
               None \<Rightarrow> Some (SelectionSet s2)
             | Some (SelectionSet s1) \<Rightarrow> Some (SelectionSet (s1 @ s2))))"

text \<open>\<^verbatim>\<open>fields.reduce((acc, field) => mergeWith(acc, field, ...), {})\<close>.\<close>

definition merge_group :: "FieldNode list \<Rightarrow> FieldNode option" where
  "merge_group fs = foldl (\<lambda>acc field. Some (mergeWith acc field)) None fs"

text \<open>
  The \<^verbatim>\<open>SelectionSet\<close> callback of replace-mode. A group is never empty, so no
  reduction returns the empty object it started from.
\<close>

definition SelectionSet_replace :: "SelectionSetNode \<Rightarrow> error + SelectionSetNode" where
  "SelectionSet_replace node =
     (let flat = flatten (selections node) in
      case group_fields [] (List.map_filter asField flat) of
        Inl e \<Rightarrow> Inl e
      | Inr groups \<Rightarrow>
          Inr (SelectionSet
                 (filter (\<lambda>selection. \<not> isField selection) flat @
                  map Field (List.map_filter (\<lambda>(key, fs). merge_group fs) groups))))"

text \<open>
  The \<^verbatim>\<open>Directive\<close> callback: \<^verbatim>\<open>null\<close> (\<open>Delete\<close>) removes the node from its
  parent's array, \<^verbatim>\<open>undefined\<close> (\<open>NoChange\<close>) leaves it.
\<close>

datatype action = NoChange | Delete

definition Directive_replace :: "DirectiveNode \<Rightarrow> action" where
  "Directive_replace node = (if directive_name node = ''computed'' then Delete else NoChange)"

definition visit_directives :: "(DirectiveNode \<Rightarrow> action) \<Rightarrow> DirectiveNode list \<Rightarrow> DirectiveNode list" where
  "visit_directives enter ds = filter (\<lambda>d. enter d \<noteq> Delete) ds"

text \<open>
  The walk of the second pass goes into the node the \<^verbatim>\<open>SelectionSet\<close> callback
  returns, so it walks merged fields, whose selections come from several fields. The
  measure below shows that it ends: neither \<open>flatten\<close> nor a merge makes a tree larger.
\<close>

fun sz_node :: "SelectionNode \<Rightarrow> nat"
  and sz_field :: "FieldNode \<Rightarrow> nat"
  and sz_set :: "SelectionSetNode \<Rightarrow> nat"
where
  "sz_node (Field f) = Suc (sz_field f)"
| "sz_node (FragmentSpread _ _) = 1"
| "sz_node (InlineFragment _ _ s) = Suc (sz_set s)"
| "sz_node (Array xs) = Suc (sum_list (map sz_node xs))"
| "sz_field (FieldNode _ _ _ _ ss) = (case ss of None \<Rightarrow> 0 | Some s \<Rightarrow> sz_set s)"
| "sz_set (SelectionSet xs) = Suc (sum_list (map sz_node xs))"

definition group_weight :: "(string \<times> FieldNode list) list \<Rightarrow> nat" where
  "group_weight acc = sum_list (map (\<lambda>(k, fs). sum_list (map (\<lambda>f. Suc (sz_field f)) fs)) acc)"

lemma sz_flatten: "sum_list (map sz_node (flatten xs)) \<le> sum_list (map sz_node xs)"
  by (induction xs rule: flatten.induct) auto

lemma sz_member: "x \<in> set xs \<Longrightarrow> sz_node x \<le> sum_list (map sz_node xs)"
  by (induction xs) auto

lemma sz_mergeWith: "sz_field (mergeWith (Some a) f) \<le> sz_field a + sz_field f"
  by (cases a; cases f) (auto split: option.splits SelectionSetNode.splits)

lemma group_weight_update:
  "group_weight (AList.update k ((case map_of acc k of None \<Rightarrow> [] | Some fs \<Rightarrow> fs) @ [f]) acc)
     = group_weight acc + Suc (sz_field f)"
  by (induction acc) (auto simp: group_weight_def)

lemma group_weight_step:
  "group_step acc f = Inr acc' \<Longrightarrow> group_weight acc' = group_weight acc + Suc (sz_field f)"
  using group_weight_update[of "responseKey f" acc f]
  by (auto simp: group_step_def Let_def read_property_def split: option.splits if_splits)

lemma group_weight_fields:
  "group_fields acc fs = Inr groups \<Longrightarrow>
   group_weight groups = group_weight acc + sum_list (map (\<lambda>f. Suc (sz_field f)) fs)"
proof (induction fs arbitrary: acc)
  case Nil
  then show ?case by simp
next
  case (Cons f fs)
  from Cons.prems obtain acc' where step: "group_step acc f = Inr acc'"
    and rest: "group_fields acc' fs = Inr groups"
    by (auto split: sum.splits)
  from Cons.IH[OF rest] group_weight_step[OF step] show ?case by simp
qed

lemma sz_merge_foldl:
  "foldl (\<lambda>acc field. Some (mergeWith acc field)) (Some a) fs = Some m
     \<Longrightarrow> sz_field m \<le> sz_field a + sum_list (map sz_field fs)"
proof (induction fs arbitrary: a)
  case Nil
  then show ?case by simp
next
  case (Cons f fs)
  from Cons.prems
  have "foldl (\<lambda>acc field. Some (mergeWith acc field)) (Some (mergeWith (Some a) f)) fs = Some m"
    by simp
  from Cons.IH[OF this] sz_mergeWith[of a f] show ?case by simp
qed

lemma sz_merge_group:
  assumes "merge_group fs = Some m"
  shows "Suc (sz_field m) \<le> sum_list (map (\<lambda>f. Suc (sz_field f)) fs)"
proof (cases fs)
  case Nil
  with assms show ?thesis by (simp add: merge_group_def)
next
  case (Cons f fs')
  with assms have "foldl (\<lambda>acc field. Some (mergeWith acc field)) (Some f) fs' = Some m"
    by (simp add: merge_group_def)
  from sz_merge_foldl[OF this]
  have "sz_field m \<le> sz_field f + sum_list (map sz_field fs')" .
  moreover have "sum_list (map sz_field fs') \<le> sum_list (map (\<lambda>f. Suc (sz_field f)) fs')"
    by (induction fs') auto
  ultimately show ?thesis using Cons by simp
qed

lemma sz_merged:
  "sum_list (map sz_node (map Field (List.map_filter (\<lambda>(key, fs). merge_group fs) acc)))
     \<le> group_weight acc"
proof (induction acc)
  case Nil
  then show ?case by (simp add: group_weight_def)
next
  case (Cons p acc)
  obtain k fs where p: "p = (k, fs)" by (cases p)
  show ?case
  proof (cases "merge_group fs")
    case None
    with Cons p show ?thesis by (simp add: group_weight_def)
  next
    case (Some m)
    from sz_merge_group[OF Some] Cons p Some show ?thesis
      by (simp add: group_weight_def)
  qed
qed

lemma sz_fields_nonfields:
  "sum_list (map (\<lambda>f. Suc (sz_field f)) (List.map_filter asField xs))
     + sum_list (map sz_node (filter (\<lambda>s. \<not> isField s) xs)) = sum_list (map sz_node xs)"
proof (induction xs)
  case Nil
  then show ?case by simp
next
  case (Cons x xs)
  then show ?case by (cases x) auto
qed

lemma sz_SelectionSet_replace:
  assumes "SelectionSet_replace node = Inr node'"
  shows "sz_set node' \<le> sz_set node"
proof (cases node)
  case (SelectionSet xs)
  let ?flat = "flatten xs"
  from assms SelectionSet obtain groups where
    groups: "group_fields [] (List.map_filter asField ?flat) = Inr groups"
    and node': "node' = SelectionSet
                 (filter (\<lambda>selection. \<not> isField selection) ?flat @
                  map Field (List.map_filter (\<lambda>(key, fs). merge_group fs) groups))"
    by (auto simp: SelectionSet_replace_def Let_def split: sum.splits)
  have "sum_list (map sz_node (map Field (List.map_filter (\<lambda>(key, fs). merge_group fs) groups)))
          \<le> sum_list (map (\<lambda>f. Suc (sz_field f)) (List.map_filter asField ?flat))"
    using sz_merged[of groups] group_weight_fields[OF groups] by (simp add: group_weight_def)
  with sz_fields_nonfields[of ?flat] sz_flatten[of xs] SelectionSet node' show ?thesis
    by simp
qed

text \<open>
  \<^verbatim>\<open>visit(firstPass, { SelectionSet(node) {...}, Directive(node) {...} })\<close>. On entering
  a selection set the callback rewrites its \<^verbatim>\<open>selections\<close> and returns the node; the
  walk goes on into the returned node. A throw of the callback ends the walk.
  Directives are visited on operations, fragments, variable definitions, fields,
  fragment spreads and inline fragments. \<open>collect\<close> gathers the results of the
  children of an array, up to the first throw.
\<close>

fun collect :: "(error + 'a) list \<Rightarrow> error + 'a list" where
  "collect [] = Inr []"
| "collect (r # rs) =
     (case r of
        Inl e \<Rightarrow> Inl e
      | Inr v \<Rightarrow> (case collect rs of Inl e \<Rightarrow> Inl e | Inr vs \<Rightarrow> Inr (v # vs)))"

function secondPass_replace_set :: "SelectionSetNode \<Rightarrow> error + SelectionSetNode"
  and secondPass_replace_node :: "SelectionNode \<Rightarrow> error + SelectionNode"
  and secondPass_replace_field :: "FieldNode \<Rightarrow> error + FieldNode"
where
  "secondPass_replace_set node =
     (case SelectionSet_replace node of
        Inl e \<Rightarrow> Inl e
      | Inr node' \<Rightarrow>
          (case collect (map secondPass_replace_node (selections node')) of
             Inl e \<Rightarrow> Inl e
           | Inr xs \<Rightarrow> Inr (SelectionSet xs)))"
| "secondPass_replace_node (Field f) =
     (case secondPass_replace_field f of Inl e \<Rightarrow> Inl e | Inr f' \<Rightarrow> Inr (Field f'))"
| "secondPass_replace_node (FragmentSpread n ds) =
     Inr (FragmentSpread n (visit_directives Directive_replace ds))"
| "secondPass_replace_node (InlineFragment tc ds s) =
     (case secondPass_replace_set s of
        Inl e \<Rightarrow> Inl e
      | Inr s' \<Rightarrow> Inr (InlineFragment tc (visit_directives Directive_replace ds) s'))"
| "secondPass_replace_node (Array xs) =
     (case collect (map secondPass_replace_node xs) of
        Inl e \<Rightarrow> Inl e
      | Inr xs' \<Rightarrow> Inr (Array xs'))"
| "secondPass_replace_field (FieldNode a n args ds ss) =
     (case ss of
        None \<Rightarrow> Inr (FieldNode a n args (visit_directives Directive_replace ds) None)
      | Some s \<Rightarrow>
          (case secondPass_replace_set s of
             Inl e \<Rightarrow> Inl e
           | Inr s' \<Rightarrow>
               Inr (FieldNode a n args (visit_directives Directive_replace ds) (Some s'))))"
  by pat_completeness auto
termination
proof (relation "measure (\<lambda>x. case x of
          Inl s \<Rightarrow> 2 * sz_set s
        | Inr (Inl n) \<Rightarrow> 2 * sz_node n
        | Inr (Inr f) \<Rightarrow> 2 * sz_field f + 1)")
  fix node node' x
  assume "SelectionSet_replace node = Inr node'" and "x \<in> set (selections node')"
  then have "sz_node x < sz_set node'"
    using sz_member[of x "selections node'"] by (cases node') auto
  with sz_SelectionSet_replace[OF \<open>SelectionSet_replace node = Inr node'\<close>]
  show "(Inr (Inl x), Inl node) \<in> measure (\<lambda>x. case x of
          Inl s \<Rightarrow> 2 * sz_set s
        | Inr (Inl n) \<Rightarrow> 2 * sz_node n
        | Inr (Inr f) \<Rightarrow> 2 * sz_field f + 1)"
    by simp
qed (auto dest: sz_member)

declare secondPass_replace_set.simps [simp del]

fun secondPass_replace_variable :: "VariableDefinitionNode \<Rightarrow> VariableDefinitionNode" where
  "secondPass_replace_variable (VariableDefinition v t dv ds) =
     VariableDefinition v t dv (visit_directives Directive_replace ds)"

fun secondPass_replace_definition :: "DefinitionNode \<Rightarrow> error + DefinitionNode" where
  "secondPass_replace_definition (OperationDefinition op n vs ds s) =
     (case secondPass_replace_set s of
        Inl e \<Rightarrow> Inl e
      | Inr s' \<Rightarrow>
          Inr (OperationDefinition op n (map secondPass_replace_variable vs)
                 (visit_directives Directive_replace ds) s'))"
| "secondPass_replace_definition (FragmentDefinition n tc ds s) =
     (case secondPass_replace_set s of
        Inl e \<Rightarrow> Inl e
      | Inr s' \<Rightarrow> Inr (FragmentDefinition n tc (visit_directives Directive_replace ds) s'))"

fun secondPass_replace :: "QueryNode \<Rightarrow> error + QueryNode" where
  "secondPass_replace (Document ds) =
     (case collect (map secondPass_replace_definition ds) of
        Inl e \<Rightarrow> Inl e
      | Inr ds' \<Rightarrow> Inr (Document ds'))"
| "secondPass_replace (Definition d) =
     (case secondPass_replace_definition d of Inl e \<Rightarrow> Inl e | Inr d' \<Rightarrow> Inr (Definition d'))"

section \<open>The second pass of augment-mode\<close>

definition SelectionSet_add :: "SelectionSetNode \<Rightarrow> SelectionSetNode" where
  "SelectionSet_add node = SelectionSet (flatten (selections node))"

lemma sz_SelectionSet_add: "sz_set (SelectionSet_add node) \<le> sz_set node"
  using sz_flatten[of "selections node"] by (cases node) (simp add: SelectionSet_add_def)

function secondPass_add_set :: "SelectionSetNode \<Rightarrow> SelectionSetNode"
  and secondPass_add_node :: "SelectionNode \<Rightarrow> SelectionNode"
  and secondPass_add_field :: "FieldNode \<Rightarrow> FieldNode"
where
  "secondPass_add_set node =
     SelectionSet (map secondPass_add_node (selections (SelectionSet_add node)))"
| "secondPass_add_node (Field f) = Field (secondPass_add_field f)"
| "secondPass_add_node (FragmentSpread n ds) = FragmentSpread n ds"
| "secondPass_add_node (InlineFragment tc ds s) = InlineFragment tc ds (secondPass_add_set s)"
| "secondPass_add_node (Array xs) = Array (map secondPass_add_node xs)"
| "secondPass_add_field (FieldNode a n args ds ss) =
     FieldNode a n args ds (map_option secondPass_add_set ss)"
  by pat_completeness auto
termination
proof (relation "measure (\<lambda>x. case x of
          Inl s \<Rightarrow> 2 * sz_set s
        | Inr (Inl n) \<Rightarrow> 2 * sz_node n
        | Inr (Inr f) \<Rightarrow> 2 * sz_field f + 1)")
  fix node x
  assume "x \<in> set (selections (SelectionSet_add node))"
  then have "sz_node x < sz_set (SelectionSet_add node)"
    using sz_member[of x "selections (SelectionSet_add node)"]
    by (cases "SelectionSet_add node") auto
  with sz_SelectionSet_add[of node]
  show "(Inr (Inl x), Inl node) \<in> measure (\<lambda>x. case x of
          Inl s \<Rightarrow> 2 * sz_set s
        | Inr (Inl n) \<Rightarrow> 2 * sz_node n
        | Inr (Inr f) \<Rightarrow> 2 * sz_field f + 1)"
    by simp
qed (auto dest: sz_member)

fun secondPass_add_definition :: "DefinitionNode \<Rightarrow> DefinitionNode" where
  "secondPass_add_definition (OperationDefinition op n vs ds s) =
     OperationDefinition op n vs ds (secondPass_add_set s)"
| "secondPass_add_definition (FragmentDefinition n tc ds s) =
     FragmentDefinition n tc ds (secondPass_add_set s)"

fun secondPass_add :: "QueryNode \<Rightarrow> QueryNode" where
  "secondPass_add (Document ds) = Document (map secondPass_add_definition ds)"
| "secondPass_add (Definition d) = Definition (secondPass_add_definition d)"

section \<open>The entry points\<close>

text \<open>
  Both return \<^verbatim>\<open>null\<close> (\<open>None\<close>) at once on an absent query. Otherwise a call takes
  one unit of fuel and hands the rest to the calls its \<^verbatim>\<open>Field\<close> callback makes on
  the registry's dependencies.
\<close>

primrec replaceDirectivesByFragments ::
  "nat \<Rightarrow> QueryNode option \<Rightarrow> Entities \<Rightarrow> QueryNode option outcome" where
  "replaceDirectivesByFragments 0 query entities =
     (case query of None \<Rightarrow> Some (Inr None) | Some q \<Rightarrow> None)"
| "replaceDirectivesByFragments (Suc fuel) query entities =
     (case query of
        None \<Rightarrow> Some (Inr None)
      | Some q \<Rightarrow>
          bind (visitField
                  (Field_replace (\<lambda>fragment. replaceDirectivesByFragments fuel fragment entities)
                     entities) q)
            (\<lambda>firstPass.
               case secondPass_replace firstPass of
                 Inl e \<Rightarrow> Some (Inl e)
               | Inr tree \<Rightarrow> Some (Inr (Some tree))))"

primrec addFragmentsFromDirectives ::
  "nat \<Rightarrow> QueryNode option \<Rightarrow> Entities \<Rightarrow> QueryNode option outcome" where
  "addFragmentsFromDirectives 0 query entities =
     (case query of None \<Rightarrow> Some (Inr None) | Some q \<Rightarrow> None)"
| "addFragmentsFromDirectives (Suc fuel) query entities =
     (case query of
        None \<Rightarrow> Some (Inr None)
      | Some q \<Rightarrow>
          bind (visitField
                  (Field_add (\<lambda>fragment. addFragmentsFromDirectives fuel fragment entities)
                     entities) q)
            (\<lambda>firstPass. Some (Inr (Some (secondPass_add firstPass)))))"

section \<open>An example registry\<close>

text \<open>
  The registry of the specification's end-to-end example, with one more field:
  \<^verbatim>\<open>User.fullName\<close> depends on \<^verbatim>\<open>firstName\<close> and \<^verbatim>\<open>lastName\<close>,
  \<^verbatim>\<open>User.initials\<close> on \<^verbatim>\<open>fullName @computed(type: "User")\<close> and \<^verbatim>\<open>id\<close>, and
  \<^verbatim>\<open>User.age\<close> has no dependencies. \<open>nested_document\<close> is a document of a
  fragment and an operation that holds the given field inside the sub-selection of an
  unannotated field, inside an inline fragment.
\<close>

definition leaf :: "string \<Rightarrow> SelectionNode" where
  "leaf n = Field (FieldNode None n [] [] None)"

definition computed :: "string \<Rightarrow> DirectiveNode" where
  "computed t = Directive ''computed'' [Argument ''type'' (Some (StringValue t))]"

definition annotated :: "string \<Rightarrow> string \<Rightarrow> FieldNode" where
  "annotated n t = FieldNode None n [] [computed t] None"

definition fragment_on_User :: "SelectionNode list \<Rightarrow> EntityField" where
  "fragment_on_User xs =
     EntityField (Some [FragmentDefinition ''dependencies'' ''User'' [] (SelectionSet xs)])"

definition example_entities :: Entities where
  "example_entities =
     [''User'' \<mapsto> Entity
        [''fullName'' \<mapsto> fragment_on_User [leaf ''firstName'', leaf ''lastName''],
         ''initials'' \<mapsto> fragment_on_User [Field (annotated ''fullName'' ''User''), leaf ''id''],
         ''age'' \<mapsto> EntityField None]]"

definition example_query :: "SelectionNode list \<Rightarrow> QueryNode" where
  "example_query xs = Definition (OperationDefinition Query None [] [] (SelectionSet xs))"

definition nested_document :: "FieldNode \<Rightarrow> QueryNode" where
  "nested_document f =
     Document
       [FragmentDefinition ''names'' ''User'' [] (SelectionSet [leaf ''firstName'']),
        OperationDefinition Query None [] []
          (SelectionSet
             [leaf ''id'',
              InlineFragment (Some ''User'') []
                (SelectionSet
                   [FragmentSpread ''names'' [],
                    Field (FieldNode None ''profile'' [] [] (Some (SelectionSet [Field f])))])])]"

section \<open>Properties of the node classifier and of the entry points\<close>

text \<open>
  C8. Both entry points, \<^verbatim>\<open>replaceDirectivesByFragments\<close> and
  \<^verbatim>\<open>addFragmentsFromDirectives\<close>, return \<^verbatim>\<open>null\<close> at once when the query is absent,
  whatever the registry is (and whatever fuel is left).
\<close>

theorem entry_points_null:
  "replaceDirectivesByFragments fuel None entities = Some (Inr None) \<and>
   addFragmentsFromDirectives fuel None entities = Some (Inr None)"
  by (cases fuel) simp_all

theorem entry_points_null_witness:
  "replaceDirectivesByFragments 0 None Map.empty = Some (Inr None) \<and>
   addFragmentsFromDirectives 0 None Map.empty = Some (Inr None)"
  using entry_points_null[of 0 Map.empty] by simp

text \<open>
  C9. \<^verbatim>\<open>nodeHasComputedDirectives(node)\<close> is true exactly when the node is present, has
  a list of directives, and one directive of the list is named \<^verbatim>\<open>computed\<close>. On an
  absent node and on a node without a list of directives it returns false. The function
  returns a boolean on every input: it has no failing branch.
\<close>

theorem nodeHasComputedDirectives_iff:
  "(nodeHasComputedDirectives node \<longleftrightarrow>
      (\<exists>n ds. node = Some n \<and> node_directives n = Some ds \<and>
         (\<exists>d \<in> set ds. directive_name d = ''computed''))) \<and>
   (node = None \<or> (\<exists>n. node = Some n \<and> node_directives n = None)
      \<longrightarrow> nodeHasComputedDirectives node = False)"
  by (auto simp: nodeHasComputedDirectives_def isNodeWithDirectives_def list_ex_iff
           split: option.splits)

theorem nodeHasComputedDirectives_iff_witness:
  "nodeHasComputedDirectives
     (Some (SelectionN (Field (FieldNode None ''fullName'' []
        [Directive ''include'' [], Directive ''computed'' []] None)))) \<and>
   \<not> nodeHasComputedDirectives
     (Some (SelectionN (Field (FieldNode None ''fullName'' [] [Directive ''include'' []] None)))) \<and>
   \<not> nodeHasComputedDirectives (Some (NameN ''fullName'')) \<and>
   \<not> nodeHasComputedDirectives (Some (SelectionN (Array []))) \<and>
   \<not> nodeHasComputedDirectives None"
  using nodeHasComputedDirectives_iff[of "Some (SelectionN (Field (FieldNode None ''fullName'' []
           [Directive ''include'' [], Directive ''computed'' []] None)))"]
        nodeHasComputedDirectives_iff[of "Some (SelectionN (Field (FieldNode None ''fullName'' []
           [Directive ''include'' []] None)))"]
        nodeHasComputedDirectives_iff[of "Some (NameN ''fullName'')"]
        nodeHasComputedDirectives_iff[of "Some (SelectionN (Array []))"]
        nodeHasComputedDirectives_iff[of None]
  by simp

text \<open>
  C10. \<^verbatim>\<open>getDirectiveType\<close> on an absent directive node throws the error
  \<^verbatim>\<open>Invalid @computed directive found. No type specified\<close>, the same error as on a
  directive without arguments, on one whose first argument has no value and on one
  whose first argument's value has no \<^verbatim>\<open>value\<close>: every read of the chain is guarded,
  so no read fails on \<^verbatim>\<open>null\<close>.
\<close>

theorem getDirectiveType_absent:
  "getDirectiveType None = Inl InvalidAnnotation \<and>
   getDirectiveType (Some (Directive n [])) = Inl InvalidAnnotation \<and>
   getDirectiveType (Some (Directive n (Argument a None # rest))) = Inl InvalidAnnotation \<and>
   getDirectiveType (Some (Directive n (Argument a (Some NullValue) # rest))) = Inl InvalidAnnotation \<and>
   getDirectiveType None \<noteq> Inl TypeError"
  by (simp add: getDirectiveType_def)

theorem getDirectiveType_absent_witness:
  "getDirectiveType None = Inl InvalidAnnotation \<and>
   getDirectiveType (Some (Directive ''computed'' [])) = Inl InvalidAnnotation \<and>
   getDirectiveType (Some (Directive ''computed'' [Argument ''type'' None])) = Inl InvalidAnnotation \<and>
   getDirectiveType (Some (Directive ''computed'' [Argument ''type'' (Some (StringValue ''User''))]))
     = Inr ''User''"
  using getDirectiveType_absent[of "''computed''" "''type''" "[]"]
  by (simp add: getDirectiveType_def)

section \<open>Failures of the resolution\<close>

text \<open>
  \<open>enters enter query f\<close>: the first pass calls the \<^verbatim>\<open>Field\<close> callback on the field
  node \<open>f\<close>. The walk comes to a node of a list when the nodes before it were walked
  without a throw; it goes into the sub-selection of a field when the callback returned
  \<^verbatim>\<open>undefined\<close> on the field; it goes into every definition of a document, every inline
  fragment and every array.
\<close>

fun enters_node ::
      "(FieldNode \<Rightarrow> SelectionNode list option outcome) \<Rightarrow> SelectionNode \<Rightarrow> FieldNode \<Rightarrow> bool"
  and enters_list ::
      "(FieldNode \<Rightarrow> SelectionNode list option outcome) \<Rightarrow> SelectionNode list \<Rightarrow> FieldNode \<Rightarrow> bool"
  and enters_set ::
      "(FieldNode \<Rightarrow> SelectionNode list option outcome) \<Rightarrow> SelectionSetNode \<Rightarrow> FieldNode \<Rightarrow> bool"
where
  "enters_node enter (Field (FieldNode a n args ds ss)) f =
     (FieldNode a n args ds ss = f \<or>
      (case enter (FieldNode a n args ds ss) of
         Some (Inr None) \<Rightarrow> (case ss of None \<Rightarrow> False | Some s \<Rightarrow> enters_set enter s f)
       | _ \<Rightarrow> False))"
| "enters_node enter (FragmentSpread n ds) f = False"
| "enters_node enter (InlineFragment tc ds s) f = enters_set enter s f"
| "enters_node enter (Array xs) f = enters_list enter xs f"
| "enters_list enter [] f = False"
| "enters_list enter (x # xs) f =
     (enters_node enter x f \<or>
      (case visitField_node enter x of
         Some (Inr x') \<Rightarrow> enters_list enter xs f
       | _ \<Rightarrow> False))"
| "enters_set enter (SelectionSet xs) f = enters_list enter xs f"

fun enters_definitions ::
  "(FieldNode \<Rightarrow> SelectionNode list option outcome) \<Rightarrow> DefinitionNode list \<Rightarrow> FieldNode \<Rightarrow> bool"
where
  "enters_definitions enter [] f = False"
| "enters_definitions enter (d # ds) f =
     (enters_set enter (definition_selectionSet d) f \<or>
      (case visitField_definition enter d of
         Some (Inr d') \<Rightarrow> enters_definitions enter ds f
       | _ \<Rightarrow> False))"

fun enters ::
  "(FieldNode \<Rightarrow> SelectionNode list option outcome) \<Rightarrow> QueryNode \<Rightarrow> FieldNode \<Rightarrow> bool"
where
  "enters enter (Document ds) f = enters_definitions enter ds f"
| "enters enter (Definition d) f = enters_set enter (definition_selectionSet d) f"

lemma bind_simps [simp]:
  "bind None k = None"
  "bind (Some (Inl e)) k = Some (Inl e)"
  "bind (Some (Inr v)) k = k v"
  by (simp_all add: bind_def)

lemma bind_Inr:
  "bind m k = Some (Inr r) \<Longrightarrow> \<exists>v. m = Some (Inr v) \<and> k v = Some (Inr r)"
  by (auto simp: bind_def split: option.splits sum.splits)

lemma enters_throw:
  "enters_node enter x f \<Longrightarrow> enter f = Some (Inl e) \<Longrightarrow> visitField_node enter x = Some (Inl e)"
  "enters_list enter xs f \<Longrightarrow> enter f = Some (Inl e) \<Longrightarrow> visitField_list enter xs = Some (Inl e)"
  "enters_set enter s f \<Longrightarrow> enter f = Some (Inl e) \<Longrightarrow> visitField_set enter s = Some (Inl e)"
proof (induction enter x f and enter xs f and enter s f
        rule: enters_node_enters_list_enters_set.induct)
  case (1 enter a n args ds ss f)
  show ?case
  proof (cases "FieldNode a n args ds ss = f")
    case True
    with "1.prems"(2) have "enter (FieldNode a n args ds ss) = Some (Inl e)" by simp
    then show ?thesis by simp
  next
    case False
    with "1.prems"(1) obtain s where
      called: "enter (FieldNode a n args ds ss) = Some (Inr None)" and ss: "ss = Some s"
      and inside: "enters_set enter s f"
      by (auto split: option.splits sum.splits)
    from "1.IH"[OF called refl refl ss inside "1.prems"(2)]
    have "visitField_set enter s = Some (Inl e)" by simp
    with called ss show ?thesis by simp
  qed
next
  case (2 enter n ds f)
  then show ?case by simp
next
  case (3 enter tc ds s f)
  then show ?case by simp
next
  case (4 enter xs f)
  then show ?case by simp
next
  case (5 enter f)
  then show ?case by simp
next
  case (6 enter x xs f)
  show ?case
  proof (cases "enters_node enter x f")
    case True
    from "6.IH"(1)[OF True "6.prems"(2)] show ?thesis by simp
  next
    case False
    with "6.prems"(1) obtain x' where x': "visitField_node enter x = Some (Inr x')"
      and rest: "enters_list enter xs f"
      by (auto split: option.splits sum.splits)
    from "6.IH"(2)[OF _ _ rest "6.prems"(2)] x' show ?thesis by simp
  qed
next
  case (7 enter xs f)
  then show ?case by simp
qed


lemma bind_Inl:
  "bind m k = Some (Inl e) \<Longrightarrow> m = Some (Inl e) \<or> (\<exists>v. m = Some (Inr v) \<and> k v = Some (Inl e))"
  by (auto simp: bind_def split: option.splits sum.splits)

text \<open>Conversely, a throw of the first pass is the throw of the callback on a node it entered.\<close>

lemma throw_enters:
  "visitField_node enter x = Some (Inl e) \<Longrightarrow> \<exists>f. enters_node enter x f \<and> enter f = Some (Inl e)"
  "visitField_list enter xs = Some (Inl e) \<Longrightarrow> \<exists>f. enters_list enter xs f \<and> enter f = Some (Inl e)"
  "visitField_set enter s = Some (Inl e) \<Longrightarrow> \<exists>f. enters_set enter s f \<and> enter f = Some (Inl e)"
proof (induction enter x and enter xs and enter s
        rule: visitField_node_visitField_list_visitField_set.induct)
  case (1 enter a n args ds ss)
  let ?g = "FieldNode a n args ds ss"
  from "1.prems" consider "enter ?g = Some (Inl e)"
    | s where "enter ?g = Some (Inr None)" "ss = Some s" "visitField_set enter s = Some (Inl e)"
    by (auto dest!: bind_Inl split: option.splits)
  then show ?case
  proof cases
    case 1
    then show ?thesis by auto
  next
    case 2
    from "1.IH"[OF 2(2) 2(3)] 2(1,2) show ?thesis by auto
  qed
next
  case (2 enter n ds)
  then show ?case by simp
next
  case (3 enter tc ds s)
  then show ?case by (auto dest!: bind_Inl)
next
  case (4 enter xs)
  then show ?case by (auto dest!: bind_Inl)
next
  case (5 enter)
  then show ?case by simp
next
  case (6 enter x xs)
  from "6.prems" consider "visitField_node enter x = Some (Inl e)"
    | x' where "visitField_node enter x = Some (Inr x')" "visitField_list enter xs = Some (Inl e)"
    by (auto dest!: bind_Inl)
  then show ?case
  proof cases
    case 1
    from "6.IH"(1)[OF 1] show ?thesis by auto
  next
    case 2
    from "6.IH"(2)[OF 2(2)] 2(1) show ?thesis by auto
  qed
next
  case (7 enter xs)
  then show ?case by (auto dest!: bind_Inl)
qed

lemma enters_definitions_throw:
  "enters_definitions enter ds f \<Longrightarrow> enter f = Some (Inl e)
     \<Longrightarrow> visitField_definitions enter ds = Some (Inl e)"
proof (induction ds)
  case Nil
  then show ?case by simp
next
  case (Cons d ds)
  show ?case
  proof (cases "enters_set enter (definition_selectionSet d) f")
    case True
    from enters_throw(3)[OF True Cons.prems(2)] show ?thesis by (cases d) simp_all
  next
    case False
    with Cons.prems(1) obtain d' where "visitField_definition enter d = Some (Inr d')"
      "enters_definitions enter ds f"
      by (auto split: option.splits sum.splits)
    with Cons.IH[OF _ Cons.prems(2)] show ?thesis by simp
  qed
qed

lemma enters_query_throw:
  "enters enter q f \<Longrightarrow> enter f = Some (Inl e) \<Longrightarrow> visitField enter q = Some (Inl e)"
proof (cases q)
  case (Document ds)
  assume "enters enter q f" "enter f = Some (Inl e)"
  with Document enters_definitions_throw[of enter ds f e] show ?thesis by simp
next
  case (Definition d)
  assume "enters enter q f" "enter f = Some (Inl e)"
  with Definition enters_throw(3)[of enter "definition_selectionSet d" f e] show ?thesis
    by (cases d) simp_all
qed

lemma null_query:
  "replaceDirectivesByFragments fuel None entities = Some (Inr None)"
  "addFragmentsFromDirectives fuel None entities = Some (Inr None)"
  by (cases fuel; simp)+

lemma annotated_field:
  "find (\<lambda>d. directive_name d = ''computed'') (directives node) = Some d
     \<Longrightarrow> nodeHasComputedDirectives (Some (SelectionN (Field node)))"
  by (auto simp: nodeHasComputedDirectives_def isNodeWithDirectives_def list_ex_iff find_Some_iff)

text \<open>
  For a type name and a field name that no object inherits, the resolution throws the
  two lookup errors, the alias plays no part, and the error is the result of the whole
  call whenever the first pass enters the node.
\<close>

lemma lookup_failure_aborts:
  assumes annotated: "find (\<lambda>d. directive_name d = ''computed'') (directives node) = Some d"
    and type: "getDirectiveType (Some d) = Inr t"
    and failure:
      "(entities t = None \<and> t \<notin> set Object_prototype \<and> err = UnknownEntityType t) \<or>
       (\<exists>entityType. entities t = Some entityType \<and> fields entityType (name node) = None \<and>
          name node \<notin> set Object_prototype \<and> err = UnknownComputedField (name node) t)"
  shows
    "replaceDirectiveByFragment self entities node = Some (Inl err) \<and>
     addFragmentToNode self entities node = Some (Inl err) \<and>
     replaceDirectiveByFragment self entities
       (FieldNode other_alias (name node) (arguments node) (directives node) (selectionSet node))
         = Some (Inl err) \<and>
     (enters (Field_replace (\<lambda>fragment. replaceDirectivesByFragments fuel fragment entities) entities)
        query node
      \<longrightarrow> replaceDirectivesByFragments (Suc fuel) (Some query) entities = Some (Inl err)) \<and>
     (enters (Field_add (\<lambda>fragment. addFragmentsFromDirectives fuel fragment entities) entities)
        query node
      \<longrightarrow> addFragmentsFromDirectives (Suc fuel) (Some query) entities = Some (Inl err))"
proof -
  have r: "replaceDirectiveByFragment self entities node = Some (Inl err)" for self
    using annotated type failure
    by (auto simp: replaceDirectiveByFragment_def Let_def read_property_def)
  have a: "addFragmentToNode self entities node = Some (Inl err)" for self
    using annotated type failure
    by (auto simp: addFragmentToNode_def Let_def read_property_def)
  have o: "replaceDirectiveByFragment self entities
       (FieldNode other_alias (name node) (arguments node) (directives node) (selectionSet node))
         = Some (Inl err)"
    using annotated type failure
    by (auto simp: replaceDirectiveByFragment_def Let_def read_property_def)
  have fr: "Field_replace self entities node = Some (Inl err)" for self
    using annotated_field[OF annotated] r by (simp add: Field_replace_def)
  have fa: "Field_add self entities node = Some (Inl err)" for self
    using annotated_field[OF annotated] a by (simp add: Field_add_def)
  have er: "replaceDirectivesByFragments (Suc fuel) (Some query) entities = Some (Inl err)"
    if "enters (Field_replace (\<lambda>fragment. replaceDirectivesByFragments fuel fragment entities) entities)
          query node"
    using enters_query_throw[OF that fr] by simp
  have ea: "addFragmentsFromDirectives (Suc fuel) (Some query) entities = Some (Inl err)"
    if "enters (Field_add (\<lambda>fragment. addFragmentsFromDirectives fuel fragment entities) entities)
          query node"
    using enters_query_throw[OF that fa] by simp
  from r a o er ea show ?thesis by blast
qed

text \<open>
  C6. The claim: the resolution throws \<open>UnknownEntityType\<close> when the annotation's type
  name is absent from the registry, and \<open>UnknownComputedField\<close> when the field name is
  absent from the entity type's field map. The code fails it on names that every object
  inherits. The registry below has no type \<^verbatim>\<open>constructor\<close> and its type \<^verbatim>\<open>User\<close> has no
  field \<^verbatim>\<open>constructor\<close>; on \<^verbatim>\<open>{ fullName @computed(type: "constructor") }\<close> and on
  \<^verbatim>\<open>{ constructor @computed(type: "User") }\<close> both lookups find the inherited function,
  the tests for \<^verbatim>\<open>null\<close> pass, and both entry points end with a \<open>TypeError\<close>.
\<close>

theorem lookup_inherited_name_TypeError:
  "example_entities ''constructor'' = None \<and>
   map_option (\<lambda>entityType. fields entityType ''constructor'') (example_entities ''User'') = Some None \<and>
   replaceDirectivesByFragments 1
     (Some (example_query [Field (annotated ''fullName'' ''constructor'')])) example_entities
     = Some (Inl TypeError) \<and>
   addFragmentsFromDirectives 1
     (Some (example_query [Field (annotated ''fullName'' ''constructor'')])) example_entities
     = Some (Inl TypeError) \<and>
   replaceDirectivesByFragments 1
     (Some (example_query [Field (annotated ''constructor'' ''User'')])) example_entities
     = Some (Inl TypeError) \<and>
   addFragmentsFromDirectives 1
     (Some (example_query [Field (annotated ''constructor'' ''User'')])) example_entities
     = Some (Inl TypeError)"
  by code_simp

text \<open>
  C1, as amended. When the registry has the entity type and the field of an annotated
  field node among its own properties, and the field's descriptor has no dependencies,
  the resolution (in both modes) throws nothing: it calls the entry point on
  \<^verbatim>\<open>undefined\<close> and returns the \<^verbatim>\<open>null\<close> it gets. The \<^verbatim>\<open>Field\<close> callback then reads
  \<^verbatim>\<open>selectionSet\<close> of \<^verbatim>\<open>null\<close>, which is the runtime's \<open>TypeError\<close>. That error ends
  the walk and is the result of the whole call, for every query in which the first pass
  enters the node: at any depth, in a document or in a single definition.
\<close>

theorem missing_dependencies_TypeError:
  assumes annotated: "find (\<lambda>d. directive_name d = ''computed'') (directives node) = Some d"
    and type: "getDirectiveType (Some d) = Inr t"
    and entity: "entities t = Some entityType"
    and field: "fields entityType (name node) = Some entityField"
    and absent: "dependencies entityField = None"
  shows
    "replaceDirectiveByFragment
       (\<lambda>fragment. replaceDirectivesByFragments fuel fragment entities) entities node
         = Some (Inr None) \<and>
     addFragmentToNode
       (\<lambda>fragment. addFragmentsFromDirectives fuel fragment entities) entities node
         = Some (Inr None) \<and>
     Field_replace
       (\<lambda>fragment. replaceDirectivesByFragments fuel fragment entities) entities node
         = Some (Inl TypeError) \<and>
     Field_add
       (\<lambda>fragment. addFragmentsFromDirectives fuel fragment entities) entities node
         = Some (Inl TypeError) \<and>
     (enters (Field_replace (\<lambda>fragment. replaceDirectivesByFragments fuel fragment entities) entities)
        query node
      \<longrightarrow> replaceDirectivesByFragments (Suc fuel) (Some query) entities
            = Some (Inl TypeError)) \<and>
     (enters (Field_add (\<lambda>fragment. addFragmentsFromDirectives fuel fragment entities) entities)
        query node
      \<longrightarrow> addFragmentsFromDirectives (Suc fuel) (Some query) entities
            = Some (Inl TypeError))"
proof -
  let ?r = "\<lambda>fragment. replaceDirectivesByFragments fuel fragment entities"
  let ?a = "\<lambda>fragment. addFragmentsFromDirectives fuel fragment entities"
  have null: "first_definition entityField = None"
    using absent by (simp add: first_definition_def)
  have r: "replaceDirectiveByFragment ?r entities node = Some (Inr None)"
    using annotated type entity field null null_query[of fuel entities]
    by (simp add: replaceDirectiveByFragment_def Let_def read_property_def)
  have a: "addFragmentToNode ?a entities node = Some (Inr None)"
    using annotated type entity field null null_query[of fuel entities]
    by (simp add: addFragmentToNode_def Let_def read_property_def)
  have fr: "Field_replace ?r entities node = Some (Inl TypeError)"
    using annotated_field[OF annotated] r by (simp add: Field_replace_def)
  have fa: "Field_add ?a entities node = Some (Inl TypeError)"
    using annotated_field[OF annotated] a by (simp add: Field_add_def)
  have er: "replaceDirectivesByFragments (Suc fuel) (Some query) entities = Some (Inl TypeError)"
    if "enters (Field_replace ?r entities) query node"
    using enters_query_throw[OF that fr] by simp
  have ea: "addFragmentsFromDirectives (Suc fuel) (Some query) entities = Some (Inl TypeError)"
    if "enters (Field_add ?a entities) query node"
    using enters_query_throw[OF that fa] by simp
  from r a fr fa er ea show ?thesis by blast
qed

theorem missing_dependencies_TypeError_witness:
  "replaceDirectivesByFragments (Suc 0) (Some (nested_document (annotated ''age'' ''User'')))
     example_entities = Some (Inl TypeError) \<and>
   addFragmentsFromDirectives (Suc 0) (Some (nested_document (annotated ''age'' ''User'')))
     example_entities = Some (Inl TypeError) \<and>
   replaceDirectivesByFragments (Suc 0)
     (Some (example_query [leaf ''id'', Field (annotated ''age'' ''User''), leaf ''id'']))
     example_entities = Some (Inl TypeError)"
proof -
  let ?d = "computed ''User''"
  let ?node = "annotated ''age'' ''User''"
  let ?entityType = "Entity
        [''fullName'' \<mapsto> fragment_on_User [leaf ''firstName'', leaf ''lastName''],
         ''initials'' \<mapsto> fragment_on_User [Field (annotated ''fullName'' ''User''), leaf ''id''],
         ''age'' \<mapsto> EntityField None]"
  have 1: "find (\<lambda>d. directive_name d = ''computed'') (directives ?node) = Some ?d"
    by (simp add: annotated_def computed_def)
  have 2: "getDirectiveType (Some ?d) = Inr ''User''"
    by (simp add: getDirectiveType_def computed_def)
  have 3: "example_entities ''User'' = Some ?entityType"
    by (simp add: example_entities_def)
  have 4: "fields ?entityType (name ?node) = Some (EntityField None)"
    by (simp add: annotated_def)
  have 5: "dependencies (EntityField None) = None" by simp
  have 6: "enters (Field_replace (\<lambda>fragment. replaceDirectivesByFragments 0 fragment example_entities)
        example_entities) (nested_document ?node) ?node"
    by code_simp
  have 7: "enters (Field_add (\<lambda>fragment. addFragmentsFromDirectives 0 fragment example_entities)
        example_entities) (nested_document ?node) ?node"
    by code_simp
  have 8: "enters (Field_replace (\<lambda>fragment. replaceDirectivesByFragments 0 fragment example_entities)
        example_entities) (example_query [leaf ''id'', Field ?node, leaf ''id'']) ?node"
    by code_simp
  note inst = missing_dependencies_TypeError[where node = ?node and d = ?d and t = "''User''"
        and entities = example_entities and entityType = ?entityType
        and entityField = "EntityField None" and fuel = 0, OF 1 2 3 4 5]
  from inst[where query = "nested_document ?node"]
       inst[where query = "example_query [leaf ''id'', Field ?node, leaf ''id'']"] 6 7 8
  show ?thesis by blast
qed

text \<open>
  C1 as stated fails: on the query \<^verbatim>\<open>{ age @computed(type: "User") }\<close> and a registry
  whose \<^verbatim>\<open>User.age\<close> has no dependencies, the call ends with the \<open>TypeError\<close>, not with
  a \<open>MissingDependency\<close> error, and the resolution itself returns \<^verbatim>\<open>null\<close>.
\<close>

theorem missing_dependencies_counterexample:
  "replaceDirectivesByFragments 1
     (Some (example_query [Field (annotated ''age'' ''User'')])) example_entities
   = Some (Inl TypeError) \<and>
   replaceDirectivesByFragments 1
     (Some (example_query [Field (annotated ''age'' ''User'')])) example_entities
   \<noteq> Some (Inl MissingDependency) \<and>
   replaceDirectiveByFragment
     (\<lambda>fragment. replaceDirectivesByFragments 0 fragment example_entities) example_entities
     (annotated ''age'' ''User'')
   = Some (Inr None)"
  by code_simp

section \<open>No annotation survives replace-mode\<close>

text \<open>All directive nodes of a tree, at any depth, in document order.\<close>

fun all_directives_node :: "SelectionNode \<Rightarrow> DirectiveNode list"
  and all_directives_field :: "FieldNode \<Rightarrow> DirectiveNode list"
  and all_directives_set :: "SelectionSetNode \<Rightarrow> DirectiveNode list"
where
  "all_directives_node (Field f) = all_directives_field f"
| "all_directives_node (FragmentSpread _ ds) = ds"
| "all_directives_node (InlineFragment _ ds s) = ds @ all_directives_set s"
| "all_directives_node (Array xs) = concat (map all_directives_node xs)"
| "all_directives_field (FieldNode _ _ _ ds ss) =
     ds @ (case ss of None \<Rightarrow> [] | Some s \<Rightarrow> all_directives_set s)"
| "all_directives_set (SelectionSet xs) = concat (map all_directives_node xs)"

fun all_directives_variable :: "VariableDefinitionNode \<Rightarrow> DirectiveNode list" where
  "all_directives_variable (VariableDefinition _ _ _ ds) = ds"

fun all_directives_definition :: "DefinitionNode \<Rightarrow> DirectiveNode list" where
  "all_directives_definition (OperationDefinition _ _ vs ds s) =
     concat (map all_directives_variable vs) @ ds @ all_directives_set s"
| "all_directives_definition (FragmentDefinition _ _ ds s) = ds @ all_directives_set s"

fun all_directives :: "QueryNode \<Rightarrow> DirectiveNode list" where
  "all_directives (Document ds) = concat (map all_directives_definition ds)"
| "all_directives (Definition d) = all_directives_definition d"

lemma visit_directives_replace:
  "d \<in> set (visit_directives Directive_replace ds) \<Longrightarrow> directive_name d \<noteq> ''computed''"
  by (auto simp: visit_directives_def Directive_replace_def split: if_splits)

lemma collect_map:
  "collect (map f xs) = Inr ys \<Longrightarrow> list_all2 (\<lambda>x y. f x = Inr y) xs ys"
proof (induction xs arbitrary: ys)
  case Nil
  then show ?case by simp
next
  case (Cons x xs)
  from Cons.prems obtain v vs where "f x = Inr v" "collect (map f xs) = Inr vs" "ys = v # vs"
    by (auto split: sum.splits)
  with Cons.IH show ?case by simp
qed

lemma collect_map_member:
  assumes "collect (map f xs) = Inr ys" and "y \<in> set ys"
  shows "\<exists>x \<in> set xs. f x = Inr y"
proof -
  from collect_map[OF assms(1)] assms(2) show ?thesis
    by (induction rule: list_all2_induct) auto
qed

lemma secondPass_replace_no_computed:
  "secondPass_replace_set s = Inr s'
     \<Longrightarrow> \<forall>d \<in> set (all_directives_set s'). directive_name d \<noteq> ''computed''"
  "secondPass_replace_node n = Inr n'
     \<Longrightarrow> \<forall>d \<in> set (all_directives_node n'). directive_name d \<noteq> ''computed''"
  "secondPass_replace_field f = Inr f'
     \<Longrightarrow> \<forall>d \<in> set (all_directives_field f'). directive_name d \<noteq> ''computed''"
proof (induction s and n and f arbitrary: s' and n' and f'
        rule: secondPass_replace_set_secondPass_replace_node_secondPass_replace_field.induct)
  case (1 node)
  from "1.prems" obtain node' xs where
    callback: "SelectionSet_replace node = Inr node'"
    and children: "collect (map secondPass_replace_node (selections node')) = Inr xs"
    and s': "s' = SelectionSet xs"
    by (auto simp: secondPass_replace_set.simps split: sum.splits)
  have "\<forall>d \<in> set (all_directives_node y). directive_name d \<noteq> ''computed''" if "y \<in> set xs" for y
  proof -
    from collect_map_member[OF children that] obtain x where
      "x \<in> set (selections node')" "secondPass_replace_node x = Inr y"
      by blast
    then show ?thesis by (rule "1.IH"[OF callback])
  qed
  with s' show ?case by auto
next
  case (2 f)
  then show ?case by (auto split: sum.splits)
next
  case (3 n ds)
  then show ?case by (auto dest: visit_directives_replace)
next
  case (4 tc ds s)
  then show ?case by (auto split: sum.splits dest: visit_directives_replace)
next
  case (5 xs)
  from "5.prems" obtain ys where
    children: "collect (map secondPass_replace_node xs) = Inr ys" and n': "n' = Array ys"
    by (auto split: sum.splits)
  have "\<forall>d \<in> set (all_directives_node y). directive_name d \<noteq> ''computed''" if "y \<in> set ys" for y
  proof -
    from collect_map_member[OF children that] obtain x where
      "x \<in> set xs" "secondPass_replace_node x = Inr y"
      by blast
    then show ?thesis by (rule "5.IH")
  qed
  with n' show ?case by auto
next
  case (6 a n args ds ss)
  then show ?case by (cases ss) (auto split: sum.splits dest: visit_directives_replace)
qed

lemma secondPass_replace_variable_no_computed:
  "d \<in> set (all_directives_variable (secondPass_replace_variable v))
     \<Longrightarrow> directive_name d \<noteq> ''computed''"
  by (cases v) (auto dest: visit_directives_replace)

lemma secondPass_replace_definition_no_computed:
  assumes "secondPass_replace_definition def = Inr def'"
    and "d \<in> set (all_directives_definition def')"
  shows "directive_name d \<noteq> ''computed''"
proof (cases "def")
  case (OperationDefinition op n vs ds s)
  with assms(1) obtain s' where s': "secondPass_replace_set s = Inr s'"
    and def': "def' = OperationDefinition op n (map secondPass_replace_variable vs)
                 (visit_directives Directive_replace ds) s'"
    by (auto split: sum.splits)
  from assms(2) def' consider v where "v \<in> set vs"
      "d \<in> set (all_directives_variable (secondPass_replace_variable v))"
    | "d \<in> set (visit_directives Directive_replace ds)"
    | "d \<in> set (all_directives_set s')"
    by auto
  then show ?thesis
  proof cases
    case 1
    then show ?thesis by (auto dest: secondPass_replace_variable_no_computed)
  next
    case 2
    then show ?thesis by (rule visit_directives_replace)
  next
    case 3
    then show ?thesis using secondPass_replace_no_computed(1)[OF s'] by blast
  qed
next
  case (FragmentDefinition n tc ds s)
  with assms(1) obtain s' where s': "secondPass_replace_set s = Inr s'"
    and def': "def' = FragmentDefinition n tc (visit_directives Directive_replace ds) s'"
    by (auto split: sum.splits)
  with assms(2) secondPass_replace_no_computed(1)[OF s'] show ?thesis
    by (auto dest: visit_directives_replace)
qed

lemma secondPass_replace_query_no_computed:
  assumes "secondPass_replace q = Inr q'" and "d \<in> set (all_directives q')"
  shows "directive_name d \<noteq> ''computed''"
proof (cases q)
  case (Document ds)
  with assms(1) obtain ds' where
    children: "collect (map secondPass_replace_definition ds) = Inr ds'" and q': "q' = Document ds'"
    by (auto split: sum.splits)
  from assms(2) q' obtain def' where "def' \<in> set ds'" "d \<in> set (all_directives_definition def')"
    by auto
  with collect_map_member[OF children] show ?thesis
    by (blast dest: secondPass_replace_definition_no_computed)
next
  case (Definition def)
  with assms show ?thesis
    by (auto split: sum.splits dest: secondPass_replace_definition_no_computed)
qed

text \<open>
  C2. Whenever \<^verbatim>\<open>replaceDirectivesByFragments\<close> returns on a query (with whatever
  registry, and without an error), it returns a tree, and no directive node of that
  tree, at any depth, is named \<^verbatim>\<open>computed\<close>. The tree is the second pass's result, so
  this covers the selections spliced in from dependencies, which were themselves
  rewritten by a nested call.
\<close>

theorem replace_no_computed:
  assumes "replaceDirectivesByFragments fuel (Some query) entities = Some (Inr result)"
  shows "\<exists>tree. result = Some tree \<and>
           filter (\<lambda>d. directive_name d = ''computed'') (all_directives tree) = []"
proof (cases fuel)
  case 0
  with assms show ?thesis by simp
next
  case (Suc n)
  with assms obtain firstPass tree where "secondPass_replace firstPass = Inr tree"
    "result = Some tree"
    by (auto dest!: bind_Inr split: sum.splits)
  then show ?thesis
    using secondPass_replace_query_no_computed[of firstPass tree] by (auto simp: filter_empty_conv)
qed

lemma example_replace_nested:
  "replaceDirectivesByFragments 3
     (Some (example_query [leaf ''id'', Field (annotated ''initials'' ''User'')])) example_entities
   = Some (Inr (Some (example_query [leaf ''id'', leaf ''firstName'', leaf ''lastName''])))"
  by code_simp

theorem replace_no_computed_witness:
  "replaceDirectivesByFragments 3
     (Some (example_query [leaf ''id'', Field (annotated ''initials'' ''User'')])) example_entities
   = Some (Inr (Some (example_query [leaf ''id'', leaf ''firstName'', leaf ''lastName'']))) \<and>
   filter (\<lambda>d. directive_name d = ''computed'')
     (all_directives (example_query [leaf ''id'', leaf ''firstName'', leaf ''lastName''])) = []"
  using replace_no_computed[OF example_replace_nested] example_replace_nested by simp

section \<open>Grouping and merging of fields\<close>

text \<open>
  The keys of a list in the order of their first occurrence, and the merge of a
  group of fields as the specification words it: the alias and the name of the last
  field that has one, the arguments, the directives and the child selections of all
  fields of the group, concatenated in the order of the group.
\<close>

definition first_seen :: "'a list \<Rightarrow> 'a list" where
  "first_seen ks = rev (remdups (rev ks))"

lemma first_seen_snoc:
  "first_seen (ks @ [k]) = (if k \<in> set ks then first_seen ks else first_seen ks @ [k])"
  by (simp add: first_seen_def)

lemma distinct_first_seen [simp]: "distinct (first_seen ks)"
  by (simp add: first_seen_def)

lemma set_first_seen [simp]: "set (first_seen ks) = set ks"
  by (simp add: first_seen_def)

lemma first_seen_distinct: "distinct ks \<Longrightarrow> first_seen ks = ks"
  by (simp add: first_seen_def distinct_remdups_id)

lemma update_keyed:
  "distinct ks \<Longrightarrow>
   AList.update k v (map (\<lambda>k'. (k', g k')) ks) =
     (if k \<in> set ks then map (\<lambda>k'. (k', if k' = k then v else g k')) ks
      else map (\<lambda>k'. (k', g k')) ks @ [(k, v)])"
  by (induction ks) auto

lemma map_of_keyed:
  "map_of (map (\<lambda>k'. (k', g k')) ks) k = (if k \<in> set ks then Some (g k) else None)"
  by (induction ks) auto

lemma group_step_own_names:
  "responseKey f \<notin> set Object_prototype \<Longrightarrow>
   group_step acc f =
     Inr (AList.update (responseKey f)
            ((case map_of acc (responseKey f) of None \<Rightarrow> [] | Some fs \<Rightarrow> fs) @ [f]) acc)"
  by (simp add: group_step_def Let_def read_property_def split: option.splits)

lemma group_fields_snoc:
  "group_fields acc (fs @ [f]) =
     (case group_fields acc fs of Inl e \<Rightarrow> Inl e | Inr acc' \<Rightarrow> group_step acc' f)"
  by (induction fs arbitrary: acc) (auto split: sum.splits)

lemma groups_char:
  "\<forall>f \<in> set fs. responseKey f \<notin> set Object_prototype \<Longrightarrow>
   group_fields [] fs =
     Inr (map (\<lambda>k. (k, filter (\<lambda>f. responseKey f = k) fs)) (first_seen (map responseKey fs)))"
proof (induction fs rule: rev_induct)
  case Nil
  then show ?case by (simp add: first_seen_def)
next
  case (snoc f fs)
  let ?ks = "first_seen (map responseKey fs)"
  let ?k = "responseKey f"
  from snoc.prems have own: "?k \<notin> set Object_prototype" by simp
  from snoc have IH: "group_fields [] fs =
     Inr (map (\<lambda>k. (k, filter (\<lambda>f. responseKey f = k) fs)) ?ks)"
    by simp
  show ?case
  proof (cases "?k \<in> set (map responseKey fs)")
    case True
    then have "first_seen (map responseKey (fs @ [f])) = ?ks"
      by (simp add: first_seen_snoc)
    with True IH show ?thesis
      by (simp add: group_fields_snoc group_step_own_names[OF own] update_keyed map_of_keyed)
  next
    case False
    then have ks: "first_seen (map responseKey (fs @ [f])) = ?ks @ [?k]"
      by (simp add: first_seen_snoc)
    from False have empty: "filter (\<lambda>f'. responseKey f' = ?k) fs = []"
      by (auto simp: filter_empty_conv image_iff)
    from False have same: "map (\<lambda>k. (k, filter (\<lambda>f'. responseKey f' = k) (fs @ [f]))) ?ks
        = map (\<lambda>k. (k, filter (\<lambda>f'. responseKey f' = k) fs)) ?ks"
      by auto
    from False IH ks empty same show ?thesis
      by (simp add: group_fields_snoc group_step_own_names[OF own] update_keyed map_of_keyed)
  qed
qed

lemma group_step_keys:
  assumes "group_step acc f = Inr acc'"
  shows "fst ` set acc' = insert (responseKey f) (fst ` set acc)"
    and "responseKey f \<in> fst ` set acc \<or> responseKey f \<notin> set Object_prototype"
proof -
  from assms obtain v where "acc' = AList.update (responseKey f) v acc"
    by (auto simp: group_step_def Let_def split: property.splits)
  then show "fst ` set acc' = insert (responseKey f) (fst ` set acc)"
    by (simp add: AList.dom_update)
  from assms have "map_of acc (responseKey f) \<noteq> None \<or> responseKey f \<notin> set Object_prototype"
    by (auto simp: group_step_def Let_def read_property_def split: option.splits if_splits)
  then show "responseKey f \<in> fst ` set acc \<or> responseKey f \<notin> set Object_prototype"
    by (simp add: map_of_eq_None_iff)
qed

lemma group_fields_own_names:
  "group_fields acc fs = Inr groups \<Longrightarrow>
   \<forall>f \<in> set fs. responseKey f \<in> fst ` set acc \<or> responseKey f \<notin> set Object_prototype"
proof (induction fs arbitrary: acc)
  case Nil
  then show ?case by simp
next
  case (Cons f fs)
  from Cons.prems obtain acc' where step: "group_step acc f = Inr acc'"
    and rest: "group_fields acc' fs = Inr groups"
    by (auto split: sum.splits)
  have keys: "fst ` set acc' = insert (responseKey f) (fst ` set acc)"
    by (rule group_step_keys(1)[OF step])
  have first: "responseKey f \<in> fst ` set acc \<or> responseKey f \<notin> set Object_prototype"
    by (rule group_step_keys(2)[OF step])
  have "responseKey g \<in> fst ` set acc \<or> responseKey g \<notin> set Object_prototype"
    if "g \<in> set fs" for g
  proof -
    from Cons.IH[OF rest] that
    have "responseKey g \<in> fst ` set acc' \<or> responseKey g \<notin> set Object_prototype" by blast
    with keys first show ?thesis by (cases "responseKey g = responseKey f") auto
  qed
  with first show ?case by simp
qed

lemma group_fields_error: "group_fields acc fs = Inl e \<Longrightarrow> e = TypeError"
proof (induction fs arbitrary: acc)
  case Nil
  then show ?case by simp
next
  case (Cons f fs)
  then show ?case
    by (auto simp: group_step_def Let_def split: sum.splits property.splits)
qed

lemma merge_group_snoc: "merge_group (g @ [f]) = Some (mergeWith (merge_group g) f)"
  by (simp add: merge_group_def)

lemma merge_group_Some: "g \<noteq> [] \<Longrightarrow> \<exists>m. merge_group g = Some m"
  by (cases g rule: rev_cases) (simp_all add: merge_group_snoc)

lemma responseKey_mergeWith:
  "responseKey a = k \<Longrightarrow> responseKey f = k \<Longrightarrow> responseKey (mergeWith (Some a) f) = k"
  by (cases a; cases f) (auto simp: responseKey_def split: option.splits if_splits)

lemma responseKey_merge_group:
  "merge_group g = Some m \<Longrightarrow> \<forall>f \<in> set g. responseKey f = k \<Longrightarrow> responseKey m = k"
proof (induction g arbitrary: m rule: rev_induct)
  case Nil
  then show ?case by (simp add: merge_group_def)
next
  case (snoc f g)
  show ?case
  proof (cases "merge_group g")
    case None
    with snoc.prems show ?thesis by (simp add: merge_group_snoc)
  next
    case (Some a)
    with snoc have "responseKey a = k" by simp
    with snoc.prems Some show ?thesis by (auto simp: merge_group_snoc responseKey_mergeWith)
  qed
qed

definition child_selections :: "FieldNode \<Rightarrow> SelectionNode list" where
  "child_selections f = (case selectionSet f of None \<Rightarrow> [] | Some s \<Rightarrow> selections s)"

definition last_alias :: "FieldNode list \<Rightarrow> string option" where
  "last_alias g =
     (let present = List.map_filter field_alias g
      in if present = [] then None else Some (last present))"

definition merged_by_spec :: "FieldNode list \<Rightarrow> FieldNode" where
  "merged_by_spec g =
     FieldNode (last_alias g) (name (last g)) (concat (map arguments g)) (concat (map directives g))
       (if list_all (\<lambda>f. selectionSet f = None) g then None
        else Some (SelectionSet (concat (map child_selections g))))"

lemma last_alias_snoc:
  "last_alias (g @ [f]) = (case field_alias f of None \<Rightarrow> last_alias g | Some a \<Rightarrow> Some a)"
  by (cases "field_alias f") (simp_all add: last_alias_def List.map_filter_def)

lemma no_child_selections:
  "list_all (\<lambda>f. selectionSet f = None) g \<Longrightarrow> concat (map child_selections g) = []"
  by (induction g) (auto simp: child_selections_def)

lemma mergeWith_spec:
  "g \<noteq> [] \<Longrightarrow> mergeWith (Some (merged_by_spec g)) f = merged_by_spec (g @ [f])"
  by (cases f)
     (auto simp: merged_by_spec_def last_alias_snoc child_selections_def no_child_selections
           split: option.splits SelectionSetNode.splits)

lemma merged_by_spec_single: "merged_by_spec [f] = f"
  by (cases f; cases "selectionSet f")
     (auto simp: merged_by_spec_def last_alias_def child_selections_def List.map_filter_def
           split: option.splits)

lemma merge_group_spec: "g \<noteq> [] \<Longrightarrow> merge_group g = Some (merged_by_spec g)"
proof (induction g rule: rev_induct)
  case Nil
  then show ?case by simp
next
  case (snoc f g)
  show ?case
  proof (cases "g = []")
    case True
    then show ?thesis by (simp add: merge_group_def merged_by_spec_single)
  next
    case False
    with snoc show ?thesis by (simp add: merge_group_snoc mergeWith_spec)
  qed
qed

lemma merged_groups:
  "List.map_filter (\<lambda>(key, fs). merge_group fs)
     (map (\<lambda>k. (k, filter (\<lambda>f. responseKey f = k) fs)) (first_seen (map responseKey fs))) =
     map (\<lambda>k. merged_by_spec (filter (\<lambda>f. responseKey f = k) fs)) (first_seen (map responseKey fs))"
proof -
  have "filter (\<lambda>f. responseKey f = k) fs \<noteq> []" if "k \<in> set (first_seen (map responseKey fs))" for k
    using that by (auto simp: filter_empty_conv)
  then have "List.map_filter (\<lambda>(key, fs). merge_group fs)
          (map (\<lambda>k. (k, filter (\<lambda>f. responseKey f = k) fs)) ks) =
        map (\<lambda>k. merged_by_spec (filter (\<lambda>f. responseKey f = k) fs)) ks"
    if "set ks \<subseteq> set (first_seen (map responseKey fs))" for ks
    using that by (induction ks) (auto simp: merge_group_spec)
  then show ?thesis by simp
qed

lemma asField_Field [simp]: "List.map_filter asField (map Field ms) = ms"
  by (induction ms) simp_all

lemma asField_nonfields [simp]: "List.map_filter asField (filter (\<lambda>s. \<not> isField s) xs) = []"
proof (induction xs)
  case Nil
  then show ?case by simp
next
  case (Cons x xs)
  then show ?case by (cases x) simp_all
qed

lemma asField_append:
  "List.map_filter asField (xs @ ys) = List.map_filter asField xs @ List.map_filter asField ys"
  by (simp add: List.map_filter_def)

text \<open>
  The \<^verbatim>\<open>SelectionSet\<close> callback of replace-mode throws exactly when the response key of
  one of the fields is a name that every object inherits. Otherwise it returns the
  selections that are not fields, in their order, followed by one merged field for each
  key, in the order in which the keys first occur.
\<close>

lemma SelectionSet_replace_char:
  "SelectionSet_replace node =
     (if \<forall>f \<in> set (List.map_filter asField (flatten (selections node))).
           responseKey f \<notin> set Object_prototype
      then Inr (SelectionSet
             (filter (\<lambda>s. \<not> isField s) (flatten (selections node)) @
              map Field
                (map (\<lambda>k. merged_by_spec
                            (filter (\<lambda>f. responseKey f = k)
                               (List.map_filter asField (flatten (selections node)))))
                   (first_seen
                      (map responseKey (List.map_filter asField (flatten (selections node))))))))
      else Inl TypeError)"
proof (cases "\<forall>f \<in> set (List.map_filter asField (flatten (selections node))).
           responseKey f \<notin> set Object_prototype")
  case True
  from groups_char[OF True] True show ?thesis
    by (simp add: SelectionSet_replace_def Let_def merged_groups)
next
  case False
  let ?fs = "List.map_filter asField (flatten (selections node))"
  have "group_fields [] ?fs = Inl TypeError"
  proof (cases "group_fields [] ?fs")
    case (Inl e)
    with group_fields_error[OF Inl] show ?thesis by simp
  next
    case (Inr groups)
    from group_fields_own_names[OF Inr] False show ?thesis by simp
  qed
  with False show ?thesis by (simp add: SelectionSet_replace_def Let_def)
qed

lemma responseKey_merged_by_spec:
  assumes "k \<in> set (map responseKey fs)"
  shows "responseKey (merged_by_spec (filter (\<lambda>f. responseKey f = k) fs)) = k"
proof -
  from assms have "filter (\<lambda>f. responseKey f = k) fs \<noteq> []"
    by (auto simp: filter_empty_conv)
  from merge_group_spec[OF this] show ?thesis
    by (rule responseKey_merge_group) simp
qed

lemma merged_keys:
  "map responseKey
     (map (\<lambda>k. merged_by_spec (filter (\<lambda>f. responseKey f = k) fs)) (first_seen (map responseKey fs)))
   = first_seen (map responseKey fs)"
proof -
  have "map responseKey (map (\<lambda>k. merged_by_spec (filter (\<lambda>f. responseKey f = k) fs)) ks) = ks"
    if "set ks \<subseteq> set (map responseKey fs)" for ks
    using that by (induction ks) (simp_all add: responseKey_merged_by_spec del: set_map)
  then show ?thesis by simp
qed

lemma secondPass_replace_kind:
  assumes "secondPass_replace_node x = Inr y"
  shows "isField y = isField x"
    and "asField x = Some f \<Longrightarrow> \<exists>f'. asField y = Some f' \<and> secondPass_replace_field f = Inr f'"
  using assms by (cases x; auto split: sum.splits)+

lemma responseKey_secondPass:
  "secondPass_replace_field f = Inr f' \<Longrightarrow> responseKey f' = responseKey f"
  by (cases f) (auto simp: responseKey_def split: option.splits sum.splits)


text \<open>
  C3. The claim: in replace-mode's second pass, for every selection set, the field
  nodes that share a response key are merged into one field node. The code fails it for
  a response key that the accumulator \<^verbatim>\<open>{}\<close> inherits: on
  \<^verbatim>\<open>{ constructor { a } constructor { b } }\<close> the read \<^verbatim>\<open>acc[name]\<close> finds the
  inherited function, the spread throws, and the second pass and the entry point end
  with a \<open>TypeError\<close> where the claim has one field \<^verbatim>\<open>constructor { a b }\<close>. With the
  key \<^verbatim>\<open>x\<close> in place of \<^verbatim>\<open>constructor\<close> the two fields are merged as claimed.
\<close>

theorem merge_inherited_key_TypeError:
  "secondPass_replace_set
     (SelectionSet
        [Field (FieldNode None ''constructor'' [] [] (Some (SelectionSet [leaf ''a'']))),
         Field (FieldNode None ''constructor'' [] [] (Some (SelectionSet [leaf ''b''])))])
     = Inl TypeError \<and>
   replaceDirectivesByFragments 1
     (Some (example_query
        [Field (FieldNode None ''constructor'' [] [] (Some (SelectionSet [leaf ''a'']))),
         Field (FieldNode None ''constructor'' [] [] (Some (SelectionSet [leaf ''b''])))]))
     example_entities
     = Some (Inl TypeError) \<and>
   secondPass_replace_set
     (SelectionSet
        [Field (FieldNode None ''x'' [] [] (Some (SelectionSet [leaf ''a'']))),
         Field (FieldNode None ''x'' [] [] (Some (SelectionSet [leaf ''b''])))])
     = Inr (SelectionSet
        [Field (FieldNode None ''x'' [] [] (Some (SelectionSet [leaf ''a'', leaf ''b''])))])"
  by code_simp

text \<open>
  C4. The claim: in replace-mode's second pass, every selection set's list is rebuilt
  as the selections that are not fields, followed by the merged fields in first-seen
  order of their keys. The code fails it for a response key that the accumulator
  \<^verbatim>\<open>{}\<close> inherits: on \<^verbatim>\<open>{ id ...names constructor }\<close> the callback throws a
  \<open>TypeError\<close> and rebuilds no list, and the entry point ends with that error. With the
  key \<^verbatim>\<open>name\<close> in place of \<^verbatim>\<open>constructor\<close> the list is rebuilt as claimed.
\<close>

theorem reassembly_inherited_key_TypeError:
  "SelectionSet_replace
     (SelectionSet [leaf ''id'', FragmentSpread ''names'' [], leaf ''constructor''])
     = Inl TypeError \<and>
   replaceDirectivesByFragments 1
     (Some (example_query [leaf ''id'', FragmentSpread ''names'' [], leaf ''constructor'']))
     example_entities
     = Some (Inl TypeError) \<and>
   replaceDirectivesByFragments 1
     (Some (example_query [leaf ''id'', FragmentSpread ''names'' [], leaf ''name'']))
     example_entities
     = Some (Inr (Some (example_query [FragmentSpread ''names'' [], leaf ''id'', leaf ''name''])))"
  by code_simp

section \<open>Idempotence of the second pass of replace-mode\<close>

text \<open>
  A tree is \<open>array_free\<close> when none of its \<^verbatim>\<open>selections\<close> holds an array, as in a
  parsed document. It is \<open>nested_once\<close> when the arrays in its \<^verbatim>\<open>selections\<close> hold
  nodes only, never an array, as after a first pass: one \<open>flatten\<close> then removes
  every array of a list.
\<close>

fun isArray :: "SelectionNode \<Rightarrow> bool" where
  "isArray (Array _) = True"
| "isArray _ = False"

fun nested_once_node :: "SelectionNode \<Rightarrow> bool"
  and nested_once_field :: "FieldNode \<Rightarrow> bool"
  and nested_once_set :: "SelectionSetNode \<Rightarrow> bool"
where
  "nested_once_node (Field f) = nested_once_field f"
| "nested_once_node (FragmentSpread _ _) = True"
| "nested_once_node (InlineFragment _ _ s) = nested_once_set s"
| "nested_once_node (Array xs) = list_all (\<lambda>x. \<not> isArray x \<and> nested_once_node x) xs"
| "nested_once_field (FieldNode _ _ _ _ ss) = (case ss of None \<Rightarrow> True | Some s \<Rightarrow> nested_once_set s)"
| "nested_once_set (SelectionSet xs) = list_all nested_once_node xs"

fun nested_once_definition :: "DefinitionNode \<Rightarrow> bool" where
  "nested_once_definition (OperationDefinition _ _ _ _ s) = nested_once_set s"
| "nested_once_definition (FragmentDefinition _ _ _ s) = nested_once_set s"

fun nested_once :: "QueryNode \<Rightarrow> bool" where
  "nested_once (Document ds) = list_all nested_once_definition ds"
| "nested_once (Definition d) = nested_once_definition d"

lemma flatten_no_arrays: "list_all (\<lambda>x. \<not> isArray x) xs \<Longrightarrow> flatten xs = xs"
  by (induction xs rule: flatten.induct) auto

lemma nested_once_flatten:
  "list_all nested_once_node xs
     \<Longrightarrow> list_all (\<lambda>x. \<not> isArray x \<and> nested_once_node x) (flatten xs)"
  by (induction xs rule: flatten.induct) auto

lemma nested_once_child_selections:
  "nested_once_field f \<Longrightarrow> list_all nested_once_node (child_selections f)"
  by (cases f; cases "selectionSet f"; cases "the (selectionSet f)")
     (auto simp: child_selections_def)

lemma nested_once_merged:
  assumes "\<forall>f \<in> set g. nested_once_field f"
  shows "nested_once_field (merged_by_spec g)"
proof -
  from assms have "list_all nested_once_node (concat (map child_selections g))"
    using nested_once_child_selections by (induction g) auto
  then show ?thesis by (simp add: merged_by_spec_def)
qed

lemma asField_member: "f \<in> set (List.map_filter asField xs) \<longleftrightarrow> Field f \<in> set xs"
proof (induction xs)
  case Nil
  then show ?case by simp
next
  case (Cons x xs)
  then show ?case by (cases x) auto
qed

lemma SelectionSet_replace_selections:
  assumes "SelectionSet_replace node = Inr node'"
  shows "\<forall>f \<in> set (List.map_filter asField (flatten (selections node))).
           responseKey f \<notin> set Object_prototype"
    and "selections node' =
           filter (\<lambda>s. \<not> isField s) (flatten (selections node)) @
           map Field
             (map (\<lambda>k. merged_by_spec
                         (filter (\<lambda>f. responseKey f = k)
                            (List.map_filter asField (flatten (selections node)))))
                (first_seen
                   (map responseKey (List.map_filter asField (flatten (selections node))))))"
  using assms SelectionSet_replace_char[of node] by (auto split: if_splits)

lemma SelectionSet_replace_nested_once:
  assumes "nested_once_set node" and "SelectionSet_replace node = Inr node'"
    and "x \<in> set (selections node')"
  shows "\<not> isArray x \<and> nested_once_node x"
proof -
  let ?flat = "flatten (selections node)"
  let ?fs = "List.map_filter asField ?flat"
  from assms(1) have flat: "list_all (\<lambda>x. \<not> isArray x \<and> nested_once_node x) ?flat"
    by (cases node) (simp add: nested_once_flatten)
  from assms(3) consider "x \<in> set ?flat"
    | k where "x = Field (merged_by_spec (filter (\<lambda>f. responseKey f = k) ?fs))"
    unfolding SelectionSet_replace_selections(2)[OF assms(2)] by auto
  then show ?thesis
  proof cases
    case 1
    with flat show ?thesis by (simp add: list_all_iff)
  next
    case 2
    have "\<forall>f \<in> set (filter (\<lambda>f. responseKey f = k) ?fs). nested_once_field f"
      using flat by (auto simp: asField_member list_all_iff)
    from nested_once_merged[OF this] 2 show ?thesis by simp
  qed
qed

lemma isArray_secondPass: "secondPass_replace_node x = Inr y \<Longrightarrow> isArray y = isArray x"
  by (cases x) (auto split: sum.splits)

lemma filter_same_key:
  "distinct (map h xs) \<Longrightarrow> x \<in> set xs \<Longrightarrow> filter (\<lambda>y. h y = h x) xs = [x]"
  by (induction xs) (auto simp: filter_empty_conv image_iff)

lemma singleton_groups:
  assumes "distinct (map responseKey ms)"
  shows "map (\<lambda>k. merged_by_spec (filter (\<lambda>f. responseKey f = k) ms)) (map responseKey ms) = ms"
proof -
  have "merged_by_spec (filter (\<lambda>f. responseKey f = responseKey m) ms) = m" if "m \<in> set ms" for m
    using filter_same_key[OF assms that] by (simp add: merged_by_spec_single)
  then show ?thesis by (simp add: map_idI)
qed

lemma SelectionSet_replace_normal:
  assumes "list_all (\<lambda>x. \<not> isArray x \<and> \<not> isField x) ns" and "distinct (map responseKey ms)"
    and "\<forall>m \<in> set ms. responseKey m \<notin> set Object_prototype"
  shows "SelectionSet_replace (SelectionSet (ns @ map Field ms)) = Inr (SelectionSet (ns @ map Field ms))"
proof -
  have arrays: "list_all (\<lambda>x. \<not> isArray x) (ns @ map Field ms)"
    using assms(1) by (auto simp: list_all_iff)
  have fields: "List.map_filter asField (ns @ map Field ms) = ms"
  proof -
    have "List.map_filter asField ns = []"
      using assms(1) by (induction ns) (auto simp: neq_Nil_conv elim: isField.elims)
    then show ?thesis by (simp add: asField_append)
  qed
  have others: "filter (\<lambda>s. \<not> isField s) ns = ns"
      "filter (\<lambda>s. \<not> isField s) (map Field ms) = []"
    using assms(1) by (auto simp: filter_empty_conv list_all_iff filter_id_conv)
  show ?thesis
    unfolding SelectionSet_replace_char
    using assms(3)
    by (simp add: flatten_no_arrays[OF arrays] fields others first_seen_distinct[OF assms(2)]
          singleton_groups[OF assms(2)] del: map_map)
qed

lemma visit_directives_idem [simp]:
  "visit_directives enter (visit_directives enter ds) = visit_directives enter ds"
  by (simp add: visit_directives_def)

lemma collect_fixed: "(\<And>x. x \<in> set xs \<Longrightarrow> f x = Inr x) \<Longrightarrow> collect (map f xs) = Inr xs"
  by (induction xs) simp_all

lemma secondPass_replace_fields:
  "list_all2 (\<lambda>x y. secondPass_replace_node x = Inr y) (map Field ms) vs \<Longrightarrow>
   \<exists>ms'. vs = map Field ms' \<and> list_all2 (\<lambda>m m'. secondPass_replace_field m = Inr m') ms ms'"
proof (induction ms arbitrary: vs)
  case Nil
  then show ?case by simp
next
  case (Cons m ms)
  from Cons.prems obtain v vs' where vs: "vs = v # vs'"
    and v: "secondPass_replace_node (Field m) = Inr v"
    and rest: "list_all2 (\<lambda>x y. secondPass_replace_node x = Inr y) (map Field ms) vs'"
    by (auto simp: list_all2_Cons1)
  from v obtain m' where m': "v = Field m'" "secondPass_replace_field m = Inr m'"
    by (auto split: sum.splits)
  from Cons.IH[OF rest] obtain ms' where
    ms': "vs' = map Field ms'" "list_all2 (\<lambda>m m'. secondPass_replace_field m = Inr m') ms ms'"
    by blast
  from vs m' ms' have "vs = map Field (m' # ms') \<and>
      list_all2 (\<lambda>m m'. secondPass_replace_field m = Inr m') (m # ms) (m' # ms')"
    by simp
  then show ?case by blast
qed

lemma list_all2_member:
  "list_all2 P xs ys \<Longrightarrow> y \<in> set ys \<Longrightarrow> \<exists>x \<in> set xs. P x y"
  by (induction rule: list_all2_induct) auto

lemma secondPass_replace_keys:
  "list_all2 (\<lambda>m m'. secondPass_replace_field m = Inr m') ms ms' \<Longrightarrow>
   map responseKey ms' = map responseKey ms"
  by (induction rule: list_all2_induct) (auto simp: responseKey_secondPass)

lemma secondPass_replace_idem:
  "nested_once_set s \<Longrightarrow> secondPass_replace_set s = Inr s' \<Longrightarrow> secondPass_replace_set s' = Inr s'"
  "nested_once_node n \<Longrightarrow> secondPass_replace_node n = Inr n' \<Longrightarrow> secondPass_replace_node n' = Inr n'"
  "nested_once_field f \<Longrightarrow> secondPass_replace_field f = Inr f' \<Longrightarrow> secondPass_replace_field f' = Inr f'"
proof (induction s and n and f arbitrary: s' and n' and f'
        rule: secondPass_replace_set_secondPass_replace_node_secondPass_replace_field.induct)
  case (1 node)
  let ?flat = "flatten (selections node)"
  let ?fs = "List.map_filter asField ?flat"
  let ?ns = "filter (\<lambda>s. \<not> isField s) ?flat"
  let ?ms = "map (\<lambda>k. merged_by_spec (filter (\<lambda>f. responseKey f = k) ?fs))
               (first_seen (map responseKey ?fs))"
  from "1.prems"(2) obtain node' xs where
    callback: "SelectionSet_replace node = Inr node'"
    and children: "collect (map secondPass_replace_node (selections node')) = Inr xs"
    and s': "s' = SelectionSet xs"
    by (auto simp: secondPass_replace_set.simps split: sum.splits)
  have own: "\<forall>f \<in> set ?fs. responseKey f \<notin> set Object_prototype"
    by (rule SelectionSet_replace_selections(1)[OF callback])
  have L: "selections node' = ?ns @ map Field ?ms"
    by (rule SelectionSet_replace_selections(2)[OF callback])
  have elems: "\<not> isArray x \<and> nested_once_node x" if "x \<in> set (selections node')" for x
    using SelectionSet_replace_nested_once[OF "1.prems"(1) callback that] .
  from collect_map[OF children]
  have "list_all2 (\<lambda>x y. secondPass_replace_node x = Inr y) (?ns @ map Field ?ms) xs"
    unfolding L .
  then obtain ns' vs where xs: "xs = ns' @ vs"
    and ns': "list_all2 (\<lambda>x y. secondPass_replace_node x = Inr y) ?ns ns'"
    and vs: "list_all2 (\<lambda>x y. secondPass_replace_node x = Inr y) (map Field ?ms) vs"
    by (auto simp: list_all2_append1)
  from secondPass_replace_fields[OF vs] obtain ms' where vs': "vs = map Field ms'"
    and ms': "list_all2 (\<lambda>m m'. secondPass_replace_field m = Inr m') ?ms ms'"
    by blast
  have keys: "map responseKey ms' = first_seen (map responseKey ?fs)"
    using secondPass_replace_keys[OF ms'] merged_keys[of ?fs] by simp
  then have distinct: "distinct (map responseKey ms')" by simp
  have own': "\<forall>m \<in> set ms'. responseKey m \<notin> set Object_prototype"
  proof
    fix m
    assume "m \<in> set ms'"
    then have "responseKey m \<in> set (map responseKey ms')" by simp
    then have "responseKey m \<in> set (map responseKey ?fs)" unfolding keys by simp
    with own show "responseKey m \<notin> set Object_prototype" by auto
  qed
  have others: "list_all (\<lambda>x. \<not> isArray x \<and> \<not> isField x) ns'"
  proof -
    have "\<not> isArray y \<and> \<not> isField y" if "y \<in> set ns'" for y
    proof -
      from list_all2_member[OF ns' that] obtain x where
        x: "x \<in> set ?ns" "secondPass_replace_node x = Inr y"
        by blast
      then have "x \<in> set (selections node')" "\<not> isField x" unfolding L by simp_all
      with elems[of x] isArray_secondPass[OF x(2)] secondPass_replace_kind(1)[OF x(2)]
      show ?thesis by simp
    qed
    then show ?thesis by (simp add: list_all_iff)
  qed
  have "SelectionSet_replace (SelectionSet xs) = Inr (SelectionSet xs)"
    unfolding xs vs' by (rule SelectionSet_replace_normal[OF others distinct own'])
  moreover have "collect (map secondPass_replace_node xs) = Inr xs"
  proof (rule collect_fixed)
    fix y
    assume "y \<in> set xs"
    from collect_map_member[OF children this] obtain x where
      x: "x \<in> set (selections node')" "secondPass_replace_node x = Inr y"
      by blast
    from elems[OF x(1)] have "nested_once_node x" by simp
    from "1.IH"[OF callback x(1) this x(2)] show "secondPass_replace_node y = Inr y" .
  qed
  ultimately show ?case using s' by (simp add: secondPass_replace_set.simps)
next
  case (2 f)
  then show ?case by (auto split: sum.splits)
next
  case (3 n ds)
  then show ?case by auto
next
  case (4 tc ds s)
  then show ?case by (auto split: sum.splits)
next
  case (5 xs)
  from "5.prems"(2) obtain ys where
    children: "collect (map secondPass_replace_node xs) = Inr ys" and n': "n' = Array ys"
    by (auto split: sum.splits)
  have "collect (map secondPass_replace_node ys) = Inr ys"
  proof (rule collect_fixed)
    fix y
    assume "y \<in> set ys"
    from collect_map_member[OF children this] obtain x where
      x: "x \<in> set xs" "secondPass_replace_node x = Inr y"
      by blast
    with "5.prems"(1) have "nested_once_node x" by (simp add: list_all_iff)
    from "5.IH"[OF x(1) this x(2)] show "secondPass_replace_node y = Inr y" .
  qed
  with n' show ?case by simp
next
  case (6 a n args ds ss)
  then show ?case by (cases ss) (auto split: sum.splits)
qed

lemma secondPass_replace_definition_idem:
  assumes "nested_once_definition d" and "secondPass_replace_definition d = Inr d'"
  shows "secondPass_replace_definition d' = Inr d'"
proof (cases d)
  case (OperationDefinition op n vs ds s)
  have "secondPass_replace_variable (secondPass_replace_variable v)
      = secondPass_replace_variable v" for v
    by (cases v) simp
  with assms OperationDefinition secondPass_replace_idem(1)[of s] show ?thesis
    by (auto simp: comp_def split: sum.splits)
next
  case (FragmentDefinition n tc ds s)
  with assms secondPass_replace_idem(1)[of s] show ?thesis
    by (auto split: sum.splits)
qed

lemma secondPass_replace_query_idem:
  assumes "nested_once q" and "secondPass_replace q = Inr q'"
  shows "secondPass_replace q' = Inr q'"
proof (cases q)
  case (Document ds)
  with assms(2) obtain ds' where
    children: "collect (map secondPass_replace_definition ds) = Inr ds'" and q': "q' = Document ds'"
    by (auto split: sum.splits)
  have "collect (map secondPass_replace_definition ds') = Inr ds'"
  proof (rule collect_fixed)
    fix d'
    assume "d' \<in> set ds'"
    from collect_map_member[OF children this] obtain d where
      d: "d \<in> set ds" "secondPass_replace_definition d = Inr d'"
      by blast
    with assms(1) Document have "nested_once_definition d" by (simp add: list_all_iff)
    from secondPass_replace_definition_idem[OF this d(2)]
    show "secondPass_replace_definition d' = Inr d'" .
  qed
  with q' show ?thesis by simp
next
  case (Definition d)
  with assms secondPass_replace_definition_idem[of d] show ?thesis
    by (auto split: sum.splits)
qed

fun array_free_node :: "SelectionNode \<Rightarrow> bool"
  and array_free_field :: "FieldNode \<Rightarrow> bool"
  and array_free_set :: "SelectionSetNode \<Rightarrow> bool"
where
  "array_free_node (Field f) = array_free_field f"
| "array_free_node (FragmentSpread _ _) = True"
| "array_free_node (InlineFragment _ _ s) = array_free_set s"
| "array_free_node (Array xs) = False"
| "array_free_field (FieldNode _ _ _ _ ss) = (case ss of None \<Rightarrow> True | Some s \<Rightarrow> array_free_set s)"
| "array_free_set (SelectionSet xs) = list_all array_free_node xs"

fun array_free_definition :: "DefinitionNode \<Rightarrow> bool" where
  "array_free_definition (OperationDefinition _ _ _ _ s) = array_free_set s"
| "array_free_definition (FragmentDefinition _ _ _ s) = array_free_set s"

fun array_free :: "QueryNode \<Rightarrow> bool" where
  "array_free (Document ds) = list_all array_free_definition ds"
| "array_free (Definition d) = array_free_definition d"

definition array_free_entities :: "Entities \<Rightarrow> bool" where
  "array_free_entities entities =
     (\<forall>t entityType f entityField ds.
        entities t = Some entityType \<longrightarrow> fields entityType f = Some entityField \<longrightarrow>
        dependencies entityField = Some ds \<longrightarrow> list_all array_free_definition ds)"

definition splices_flat :: "(FieldNode \<Rightarrow> SelectionNode list option outcome) \<Rightarrow> bool" where
  "splices_flat enter =
     (\<forall>f array. enter f = Some (Inr (Some array))
        \<longrightarrow> list_all (\<lambda>x. \<not> isArray x \<and> nested_once_node x) array)"

lemma visitField_nested_once:
  "splices_flat enter \<Longrightarrow> array_free_node x \<Longrightarrow> visitField_node enter x = Some (Inr x')
     \<Longrightarrow> nested_once_node x'"
  "splices_flat enter \<Longrightarrow> list_all array_free_node xs \<Longrightarrow> visitField_list enter xs = Some (Inr xs')
     \<Longrightarrow> list_all nested_once_node xs'"
  "splices_flat enter \<Longrightarrow> array_free_set s \<Longrightarrow> visitField_set enter s = Some (Inr s')
     \<Longrightarrow> nested_once_set s'"
proof (induction enter x and enter xs and enter s arbitrary: x' and xs' and s'
        rule: visitField_node_visitField_list_visitField_set.induct)
  case (1 enter a n args ds ss)
  from "1.prems"(3) obtain result where
    result: "enter (FieldNode a n args ds ss) = Some (Inr result)"
    and rest: "(case result of
         Some array \<Rightarrow> Some (Inr (Array array))
       | None \<Rightarrow>
           (case ss of
              None \<Rightarrow> Some (Inr (Field (FieldNode a n args ds None)))
            | Some s \<Rightarrow>
                bind (visitField_set enter s) (\<lambda>s'.
                  Some (Inr (Field (FieldNode a n args ds (Some s'))))))) = Some (Inr x')"
    by (auto dest!: bind_Inr)
  show ?case
  proof (cases result)
    case (Some array)
    with result "1.prems"(1)[unfolded splices_flat_def] rest show ?thesis by auto
  next
    case None
    show ?thesis
    proof (cases ss)
      case None
      with \<open>result = None\<close> rest show ?thesis by auto
    next
      case (Some s)
      with \<open>result = None\<close> rest obtain s' where
        s': "visitField_set enter s = Some (Inr s')" and x': "x' = Field (FieldNode a n args ds (Some s'))"
        by (auto dest!: bind_Inr)
      from "1.prems"(2) Some have "array_free_set s" by simp
      from "1.IH"[OF Some "1.prems"(1) this s'] x' show ?thesis by simp
    qed
  qed
next
  case (2 enter n ds)
  then show ?case by auto
next
  case (3 enter tc ds s)
  then show ?case by (auto dest!: bind_Inr)
next
  case (4 enter xs)
  then show ?case by simp
next
  case (5 enter)
  then show ?case by simp
next
  case (6 enter x xs)
  from "6.prems"(3) obtain y ys where
    y: "visitField_node enter x = Some (Inr y)" and ys: "visitField_list enter xs = Some (Inr ys)"
    and xs': "xs' = y # ys"
    by (auto dest!: bind_Inr)
  from "6.prems"(2) have "array_free_node x" "list_all array_free_node xs" by simp_all
  with "6.IH"(1)[OF "6.prems"(1) _ y] "6.IH"(2)[OF "6.prems"(1) _ ys] xs' show ?case by simp
next
  case (7 enter xs)
  then show ?case by (auto dest!: bind_Inr)
qed


lemma secondPass_replace_nested_once:
  "nested_once_set s \<Longrightarrow> secondPass_replace_set s = Inr s' \<Longrightarrow> nested_once_set s'"
  "nested_once_node n \<Longrightarrow> secondPass_replace_node n = Inr n' \<Longrightarrow> nested_once_node n'"
  "nested_once_field f \<Longrightarrow> secondPass_replace_field f = Inr f' \<Longrightarrow> nested_once_field f'"
proof (induction s and n and f arbitrary: s' and n' and f'
        rule: secondPass_replace_set_secondPass_replace_node_secondPass_replace_field.induct)
  case (1 node)
  from "1.prems"(2) obtain node' xs where
    callback: "SelectionSet_replace node = Inr node'"
    and children: "collect (map secondPass_replace_node (selections node')) = Inr xs"
    and s': "s' = SelectionSet xs"
    by (auto simp: secondPass_replace_set.simps split: sum.splits)
  have "nested_once_node y" if "y \<in> set xs" for y
  proof -
    from collect_map_member[OF children that] obtain x where
      x: "x \<in> set (selections node')" "secondPass_replace_node x = Inr y"
      by blast
    from SelectionSet_replace_nested_once[OF "1.prems"(1) callback x(1)]
    have "nested_once_node x" by simp
    from "1.IH"[OF callback x(1) this x(2)] show ?thesis .
  qed
  with s' show ?case by (simp add: list_all_iff)
next
  case (2 f)
  then show ?case by (auto split: sum.splits)
next
  case (3 n ds)
  then show ?case by auto
next
  case (4 tc ds s)
  then show ?case by (auto split: sum.splits)
next
  case (5 xs)
  from "5.prems"(2) obtain ys where
    children: "collect (map secondPass_replace_node xs) = Inr ys" and n': "n' = Array ys"
    by (auto split: sum.splits)
  have "\<not> isArray y \<and> nested_once_node y" if "y \<in> set ys" for y
  proof -
    from collect_map_member[OF children that] obtain x where
      x: "x \<in> set xs" "secondPass_replace_node x = Inr y"
      by blast
    with "5.prems"(1) have flat: "\<not> isArray x" "nested_once_node x" by (simp_all add: list_all_iff)
    from "5.IH"[OF x(1) flat(2) x(2)] isArray_secondPass[OF x(2)] flat(1) show ?thesis by simp
  qed
  with n' show ?case by (simp add: list_all_iff)
next
  case (6 a n args ds ss)
  then show ?case by (cases ss) (auto split: sum.splits)
qed

lemma secondPass_replace_top_level:
  assumes "nested_once_set s" and "secondPass_replace_set s = Inr s'"
    and "x \<in> set (selections s')"
  shows "\<not> isArray x \<and> nested_once_node x"
proof -
  from assms(2) obtain node' xs where
    callback: "SelectionSet_replace s = Inr node'"
    and children: "collect (map secondPass_replace_node (selections node')) = Inr xs"
    and s': "s' = SelectionSet xs"
    by (auto simp: secondPass_replace_set.simps split: sum.splits)
  from assms(3) s' collect_map_member[OF children] obtain y where
    y: "y \<in> set (selections node')" "secondPass_replace_node y = Inr x"
    by auto
  from SelectionSet_replace_nested_once[OF assms(1) callback y(1)]
    secondPass_replace_nested_once(2)[OF _ y(2)] isArray_secondPass[OF y(2)]
  show ?thesis by simp
qed

lemma visitField_definition_nested_once:
  "splices_flat enter \<Longrightarrow> array_free_definition d \<Longrightarrow>
   visitField_definition enter d = Some (Inr d') \<Longrightarrow> nested_once_definition d'"
  by (cases d) (auto dest!: bind_Inr dest: visitField_nested_once(3))

lemma visitField_definitions_nested_once:
  "splices_flat enter \<Longrightarrow> list_all array_free_definition ds \<Longrightarrow>
   visitField_definitions enter ds = Some (Inr ds') \<Longrightarrow> list_all nested_once_definition ds'"
proof (induction ds arbitrary: ds')
  case Nil
  then show ?case by simp
next
  case (Cons d ds)
  from Cons.prems(3) obtain e es where
    e: "visitField_definition enter d = Some (Inr e)"
    and es: "visitField_definitions enter ds = Some (Inr es)" and ds': "ds' = e # es"
    by (auto dest!: bind_Inr)
  from Cons.prems(2) have "array_free_definition d" "list_all array_free_definition ds" by simp_all
  with visitField_definition_nested_once[OF Cons.prems(1) _ e] Cons.IH[OF Cons.prems(1) _ es] ds'
  show ?case by simp
qed

lemma visitField_query_nested_once:
  "splices_flat enter \<Longrightarrow> array_free q \<Longrightarrow> visitField enter q = Some (Inr q')
     \<Longrightarrow> nested_once q'"
  by (cases q)
     (auto dest!: bind_Inr
           dest: visitField_definition_nested_once visitField_definitions_nested_once)

lemma first_pass_nested_once:
  assumes registry: "array_free_entities entities"
  shows "array_free q \<Longrightarrow> replaceDirectivesByFragments fuel (Some q) entities = Some (Inr r)
     \<Longrightarrow> \<exists>firstPass tree. nested_once firstPass \<and> secondPass_replace firstPass = Inr tree \<and>
           r = Some tree"
proof (induction fuel arbitrary: q r)
  case 0
  then show ?case by simp
next
  case (Suc n)
  let ?self = "\<lambda>fragment. replaceDirectivesByFragments n fragment entities"
  have "splices_flat (Field_replace ?self entities)"
    unfolding splices_flat_def
  proof (intro allI impI)
    fix f array
    assume enter: "Field_replace ?self entities f = Some (Inr (Some array))"
    then obtain fragment where
      resolved: "replaceDirectiveByFragment ?self entities f = Some (Inr fragment)"
      and sels: "fragment_selections fragment = Some (Inr array)"
      by (auto simp: Field_replace_def split: if_splits dest!: bind_Inr)
    from sels obtain d' where fragment: "fragment = Some (Definition d')"
      and array: "array = selections (definition_selectionSet d')"
      by (cases fragment rule: fragment_selections.cases) auto
    from resolved fragment obtain t entityType entityField where
      "entities t = Some entityType" "fields entityType (name f) = Some entityField"
      and call: "?self (first_definition entityField) = Some (Inr fragment)"
      by (auto simp: replaceDirectiveByFragment_def Let_def read_property_def null_query
               split: sum.splits option.splits if_splits)
    with registry have deps: "\<forall>ds. dependencies entityField = Some ds \<longrightarrow> list_all array_free_definition ds"
      unfolding array_free_entities_def by blast
    from call fragment obtain d where first: "first_definition entityField = Some (Definition d)"
      by (cases "first_definition entityField")
         (auto simp: null_query first_definition_def split: option.splits list.splits)
    with deps have "array_free (Definition d)"
      by (auto simp: first_definition_def split: option.splits list.splits)
    from Suc.IH[OF this] call first fragment obtain firstPass where
      "nested_once firstPass" "secondPass_replace firstPass = Inr (Definition d')"
      by auto
    then obtain d1 where "nested_once_definition d1" "secondPass_replace_definition d1 = Inr d'"
      by (cases firstPass) (auto split: sum.splits)
    then obtain s1 where "nested_once_set s1"
      "secondPass_replace_set s1 = Inr (definition_selectionSet d')"
      by (cases d1) (auto split: sum.splits)
    with array show "list_all (\<lambda>x. \<not> isArray x \<and> nested_once_node x) array"
      using secondPass_replace_top_level[of s1] by (simp add: list_all_iff)
  qed
  moreover from Suc.prems(2) obtain firstPass tree where
    "visitField (Field_replace ?self entities) q = Some (Inr firstPass)"
    "secondPass_replace firstPass = Inr tree" "r = Some tree"
    by (auto dest!: bind_Inr split: sum.splits)
  ultimately show ?case
    using visitField_query_nested_once[OF _ Suc.prems(1)] by blast
qed

text \<open>
  C7. The second pass of replace-mode (flatten, merge of fields, removal of the
  \<^verbatim>\<open>computed\<close> directives) is idempotent: on a tree whose arrays are nested once, as
  every tree the first pass returns is, running it on its own result changes nothing,
  and where the pass throws, running it twice throws the same error. In particular the
  tree that \<^verbatim>\<open>replaceDirectivesByFragments\<close> returns, on a parsed query and a registry of
  parsed dependencies, is a fixed point of the second pass.
\<close>

theorem second_pass_idempotent:
  "(nested_once tree \<longrightarrow>
      (case secondPass_replace tree of Inl e \<Rightarrow> Inl e | Inr once \<Rightarrow> secondPass_replace once)
        = secondPass_replace tree) \<and>
   (array_free query \<and> array_free_entities entities \<and>
    replaceDirectivesByFragments fuel (Some query) entities = Some (Inr (Some result))
      \<longrightarrow> secondPass_replace result = Inr result)"
proof (intro conjI impI)
  assume "nested_once tree"
  then show "(case secondPass_replace tree of Inl e \<Rightarrow> Inl e | Inr once \<Rightarrow> secondPass_replace once)
        = secondPass_replace tree"
    by (cases "secondPass_replace tree") (simp_all add: secondPass_replace_query_idem)
next
  assume "array_free query \<and> array_free_entities entities \<and>
    replaceDirectivesByFragments fuel (Some query) entities = Some (Inr (Some result))"
  then obtain firstPass where "nested_once firstPass" "secondPass_replace firstPass = Inr result"
    using first_pass_nested_once[of entities query fuel "Some result"] by auto
  then show "secondPass_replace result = Inr result"
    by (rule secondPass_replace_query_idem)
qed

lemma example_entities_array_free: "array_free_entities example_entities"
  by (auto simp: array_free_entities_def example_entities_def fragment_on_User_def leaf_def
        annotated_def split: if_splits)

theorem second_pass_idempotent_witness:
  "secondPass_replace (example_query [leaf ''id'', leaf ''firstName'', leaf ''lastName''])
     = Inr (example_query [leaf ''id'', leaf ''firstName'', leaf ''lastName'']) \<and>
   (case secondPass_replace
      (example_query [leaf ''id'', Array [leaf ''firstName'', leaf ''id''], FragmentSpread ''F'' []])
    of Inl e \<Rightarrow> Inl e | Inr once \<Rightarrow> secondPass_replace once)
     = secondPass_replace
        (example_query [leaf ''id'', Array [leaf ''firstName'', leaf ''id''], FragmentSpread ''F'' []])"
proof -
  have "array_free (example_query [leaf ''id'', Field (annotated ''initials'' ''User'')])"
    by (simp add: example_query_def leaf_def annotated_def)
  moreover have "nested_once
      (example_query [leaf ''id'', Array [leaf ''firstName'', leaf ''id''], FragmentSpread ''F'' []])"
    by (simp add: example_query_def leaf_def)
  ultimately show ?thesis
    using second_pass_idempotent[of
        "example_query [leaf ''id'', Array [leaf ''firstName'', leaf ''id''], FragmentSpread ''F'' []]"
        "example_query [leaf ''id'', Field (annotated ''initials'' ''User'')]"
        example_entities 3
        "example_query [leaf ''id'', leaf ''firstName'', leaf ''lastName'']"]
      example_entities_array_free example_replace_nested
    by simp
qed

section \<open>Augment-mode\<close>

text \<open>
  The tree that the claim describes. \<open>spliced resolved query\<close> is \<open>query\<close> in which
  every annotated field node \<open>f\<close> that is not inside the sub-selection of an annotated
  field is followed, in its own selection set, by the selections \<open>resolved f\<close>; the node
  \<open>f\<close> stays as it is, with its directives and its sub-selection, and nothing else
  changes.
\<close>

fun spliced_node :: "(FieldNode \<Rightarrow> SelectionNode list) \<Rightarrow> SelectionNode \<Rightarrow> SelectionNode list"
  and spliced_list :: "(FieldNode \<Rightarrow> SelectionNode list) \<Rightarrow> SelectionNode list \<Rightarrow> SelectionNode list"
  and spliced_set :: "(FieldNode \<Rightarrow> SelectionNode list) \<Rightarrow> SelectionSetNode \<Rightarrow> SelectionSetNode"
where
  "spliced_node resolved (Field (FieldNode a n args ds ss)) =
     (if nodeHasComputedDirectives (Some (SelectionN (Field (FieldNode a n args ds ss))))
      then Field (FieldNode a n args ds ss) # resolved (FieldNode a n args ds ss)
      else [Field (FieldNode a n args ds
                     (case ss of None \<Rightarrow> None | Some s \<Rightarrow> Some (spliced_set resolved s)))])"
| "spliced_node resolved (FragmentSpread n ds) = [FragmentSpread n ds]"
| "spliced_node resolved (InlineFragment tc ds s) = [InlineFragment tc ds (spliced_set resolved s)]"
| "spliced_node resolved (Array xs) = [Array xs]"
| "spliced_list resolved [] = []"
| "spliced_list resolved (x # xs) = spliced_node resolved x @ spliced_list resolved xs"
| "spliced_set resolved (SelectionSet xs) = SelectionSet (spliced_list resolved xs)"

fun spliced_definition :: "(FieldNode \<Rightarrow> SelectionNode list) \<Rightarrow> DefinitionNode \<Rightarrow> DefinitionNode"
where
  "spliced_definition resolved (OperationDefinition op n vs ds s) =
     OperationDefinition op n vs ds (spliced_set resolved s)"
| "spliced_definition resolved (FragmentDefinition n tc ds s) =
     FragmentDefinition n tc ds (spliced_set resolved s)"

fun spliced :: "(FieldNode \<Rightarrow> SelectionNode list) \<Rightarrow> QueryNode \<Rightarrow> QueryNode" where
  "spliced resolved (Document ds) = Document (map (spliced_definition resolved) ds)"
| "spliced resolved (Definition d) = Definition (spliced_definition resolved d)"

text \<open>
  \<^verbatim>\<open>fragment.selectionSet.selections\<close> of the fragment that \<^verbatim>\<open>addFragmentToNode\<close>
  returns for a node.
\<close>

definition resolved_selections ::
  "(QueryNode option \<Rightarrow> QueryNode option outcome) \<Rightarrow> Entities \<Rightarrow> FieldNode \<Rightarrow> SelectionNode list"
where
  "resolved_selections self entities node =
     (case addFragmentToNode self entities node of
        Some (Inr fragment) \<Rightarrow>
          (case fragment_selections fragment of Some (Inr sels) \<Rightarrow> sels | _ \<Rightarrow> [])
      | _ \<Rightarrow> [])"

definition splices ::
  "(FieldNode \<Rightarrow> SelectionNode list option outcome) \<Rightarrow> (FieldNode \<Rightarrow> SelectionNode list) \<Rightarrow> bool"
where
  "splices enter resolved =
     (\<forall>f. (\<forall>array. enter f = Some (Inr (Some array)) \<longrightarrow>
              nodeHasComputedDirectives (Some (SelectionN (Field f))) \<and>
              array = Field f # resolved f \<and> list_all array_free_node (resolved f)) \<and>
          (enter f = Some (Inr None) \<longrightarrow>
              \<not> nodeHasComputedDirectives (Some (SelectionN (Field f)))))"

lemma all_directives_flatten:
  "concat (map all_directives_node (flatten xs)) = concat (map all_directives_node xs)"
  by (induction xs rule: flatten.induct) auto

lemma secondPass_add_directives:
  "all_directives_set (secondPass_add_set s) = all_directives_set s"
  "all_directives_node (secondPass_add_node n) = all_directives_node n"
  "all_directives_field (secondPass_add_field f) = all_directives_field f"
proof (induction s and n and f rule: secondPass_add_set_secondPass_add_node_secondPass_add_field.induct)
  case (1 node)
  have "concat (map (\<lambda>x. all_directives_node (secondPass_add_node x)) (flatten (selections node)))
      = concat (map all_directives_node (flatten (selections node)))"
    using "1.IH" by (simp add: SelectionSet_add_def cong: map_cong)
  then show ?case
    by (cases node) (simp add: SelectionSet_add_def comp_def all_directives_flatten)
next
  case (2 f)
  then show ?case by simp
next
  case (3 n ds)
  then show ?case by simp
next
  case (4 tc ds s)
  then show ?case by simp
next
  case (5 xs)
  then show ?case by (simp add: comp_def cong: map_cong)
next
  case (6 a n args ds ss)
  then show ?case by (cases ss) auto
qed

lemma secondPass_add_query_directives: "all_directives (secondPass_add q) = all_directives q"
proof (cases q)
  case (Document ds)
  have "all_directives_definition (secondPass_add_definition d) = all_directives_definition d" for d
    by (cases d) (simp_all add: secondPass_add_directives del: secondPass_add_set.simps)
  with Document show ?thesis by (simp add: comp_def)
next
  case (Definition d)
  then show ?thesis
    by (cases d) (simp_all add: secondPass_add_directives del: secondPass_add_set.simps)
qed

lemma array_free_flatten: "list_all array_free_node xs \<Longrightarrow> flatten xs = xs"
  by (induction xs rule: flatten.induct) auto

lemma secondPass_add_array_free:
  "array_free_set s \<longrightarrow> secondPass_add_set s = s"
  "array_free_node n \<longrightarrow> secondPass_add_node n = n"
  "array_free_field f \<longrightarrow> secondPass_add_field f = f"
proof (induction s and n and f rule: secondPass_add_set_secondPass_add_node_secondPass_add_field.induct)
  case (1 node)
  show ?case
  proof
    assume "array_free_set node"
    then have flat: "list_all array_free_node (selections node)" by (cases node) simp
    then have "selections (SelectionSet_add node) = selections node"
      by (simp add: SelectionSet_add_def array_free_flatten)
    moreover from this flat "1.IH" have "map secondPass_add_node (selections node) = selections node"
      by (simp add: list_all_iff map_idI)
    ultimately show "secondPass_add_set node = node" by (cases node) simp
  qed
next
  case (2 f)
  then show ?case by simp
next
  case (3 n ds)
  then show ?case by simp
next
  case (4 tc ds s)
  then show ?case by simp
next
  case (5 xs)
  then show ?case by simp
next
  case (6 a n args ds ss)
  then show ?case by (cases ss) auto
qed

lemma secondPass_add_query_array_free: "array_free q \<Longrightarrow> secondPass_add q = q"
proof (cases q)
  case (Document ds)
  assume "array_free q"
  moreover have "array_free_definition d \<Longrightarrow> secondPass_add_definition d = d" for d
    by (cases d) (simp_all add: secondPass_add_array_free del: secondPass_add_set.simps)
  ultimately show ?thesis using Document by (simp add: list_all_iff map_idI)
next
  case (Definition d)
  assume "array_free q"
  with Definition show ?thesis
    by (cases d) (simp_all add: secondPass_add_array_free del: secondPass_add_set.simps)
qed


lemma flatten_Cons: "flatten (x # xs) = flatten [x] @ flatten xs"
  by (cases x) simp_all

lemma first_pass_spliced:
  "splices enter resolved \<Longrightarrow> array_free_node x \<Longrightarrow> visitField_node enter x = Some (Inr x')
     \<Longrightarrow> map secondPass_add_node (flatten [x']) = spliced_node resolved x \<and>
         list_all array_free_node (spliced_node resolved x)"
  "splices enter resolved \<Longrightarrow> list_all array_free_node xs \<Longrightarrow>
   visitField_list enter xs = Some (Inr xs')
     \<Longrightarrow> map secondPass_add_node (flatten xs') = spliced_list resolved xs \<and>
         list_all array_free_node (spliced_list resolved xs)"
  "splices enter resolved \<Longrightarrow> array_free_set s \<Longrightarrow> visitField_set enter s = Some (Inr s')
     \<Longrightarrow> secondPass_add_set s' = spliced_set resolved s \<and> array_free_set (spliced_set resolved s)"
proof (induction enter x and enter xs and enter s arbitrary: x' and xs' and s'
        rule: visitField_node_visitField_list_visitField_set.induct)
  case (1 enter a n args ds ss)
  let ?f = "FieldNode a n args ds ss"
  from "1.prems"(3) obtain result where
    result: "enter ?f = Some (Inr result)"
    and rest: "(case result of
         Some array \<Rightarrow> Some (Inr (Array array))
       | None \<Rightarrow>
           (case ss of
              None \<Rightarrow> Some (Inr (Field (FieldNode a n args ds None)))
            | Some s \<Rightarrow>
                bind (visitField_set enter s) (\<lambda>s'.
                  Some (Inr (Field (FieldNode a n args ds (Some s'))))))) = Some (Inr x')"
    by (auto dest!: bind_Inr)
  show ?case
  proof (cases result)
    case (Some array)
    with result "1.prems"(1) have annotated: "nodeHasComputedDirectives (Some (SelectionN (Field ?f)))"
      and array: "array = Field ?f # resolved ?f"
      and flat: "list_all array_free_node (resolved ?f)"
      unfolding splices_def by blast+
    from Some rest have x': "x' = Array array" by simp
    from "1.prems"(2) have "secondPass_add_node (Field ?f) = Field ?f"
      using secondPass_add_array_free(2)[of "Field ?f"] by simp
    moreover from flat have "map secondPass_add_node (resolved ?f) = resolved ?f"
      using secondPass_add_array_free(2) by (simp add: list_all_iff map_idI)
    ultimately show ?thesis
      using x' array annotated flat "1.prems"(2) by simp
  next
    case None
    with result "1.prems"(1) have plain: "\<not> nodeHasComputedDirectives (Some (SelectionN (Field ?f)))"
      unfolding splices_def by blast
    show ?thesis
    proof (cases ss)
      case None
      with \<open>result = None\<close> rest plain show ?thesis by auto
    next
      case (Some s)
      with \<open>result = None\<close> rest obtain s' where
        s': "visitField_set enter s = Some (Inr s')" and x': "x' = Field (FieldNode a n args ds (Some s'))"
        by (auto dest!: bind_Inr)
      from "1.prems"(2) Some have "array_free_set s" by simp
      from "1.IH"[OF Some "1.prems"(1) this s'] x' plain Some show ?thesis
        by (simp del: secondPass_add_set.simps)
    qed
  qed
next
  case (2 enter n ds)
  then show ?case by auto
next
  case (3 enter tc ds s)
  from "3.prems"(3) obtain s' where
    s': "visitField_set enter s = Some (Inr s')" and x': "x' = InlineFragment tc ds s'"
    by (auto dest!: bind_Inr)
  from "3.prems"(2) have "array_free_set s" by simp
  from "3.IH"[OF "3.prems"(1) this s'] x' show ?case
    by (simp del: secondPass_add_set.simps)
next
  case (4 enter xs)
  then show ?case by simp
next
  case (5 enter)
  then show ?case by simp
next
  case (6 enter x xs)
  from "6.prems"(3) obtain y ys where
    y: "visitField_node enter x = Some (Inr y)" and ys: "visitField_list enter xs = Some (Inr ys)"
    and xs': "xs' = y # ys"
    by (auto dest!: bind_Inr)
  from "6.prems"(2) have "array_free_node x" "list_all array_free_node xs" by simp_all
  with "6.IH"(1)[OF "6.prems"(1) _ y] "6.IH"(2)[OF "6.prems"(1) _ ys] xs'
  show ?case by (simp add: flatten_Cons[of y ys])
next
  case (7 enter xs)
  from "7.prems"(3) obtain ys where
    ys: "visitField_list enter xs = Some (Inr ys)" and s': "s' = SelectionSet ys"
    by (auto dest!: bind_Inr)
  from "7.prems"(2) have "list_all array_free_node xs" by simp
  from "7.IH"[OF "7.prems"(1) this ys] s' show ?case
    by (simp add: SelectionSet_add_def)
qed

lemma first_pass_spliced_definition:
  assumes "splices enter resolved" and "array_free_definition d"
    and "visitField_definition enter d = Some (Inr d')"
  shows "secondPass_add_definition d' = spliced_definition resolved d \<and>
         array_free_definition (spliced_definition resolved d)"
  using assms first_pass_spliced(3)[OF assms(1)]
  by (cases d) (auto dest!: bind_Inr simp del: secondPass_add_set.simps)

lemma first_pass_spliced_definitions:
  "splices enter resolved \<Longrightarrow> list_all array_free_definition ds \<Longrightarrow>
   visitField_definitions enter ds = Some (Inr ds') \<Longrightarrow>
   map secondPass_add_definition ds' = map (spliced_definition resolved) ds \<and>
   list_all array_free_definition (map (spliced_definition resolved) ds)"
proof (induction ds arbitrary: ds')
  case Nil
  then show ?case by simp
next
  case (Cons d ds)
  from Cons.prems(3) obtain e es where
    e: "visitField_definition enter d = Some (Inr e)"
    and es: "visitField_definitions enter ds = Some (Inr es)" and ds': "ds' = e # es"
    by (auto dest!: bind_Inr)
  from Cons.prems(2) have "array_free_definition d" "list_all array_free_definition ds" by simp_all
  with first_pass_spliced_definition[OF Cons.prems(1) _ e] Cons.IH[OF Cons.prems(1) _ es] ds'
  show ?case by simp
qed

lemma first_pass_spliced_query:
  assumes "splices enter resolved" and "array_free q" and "visitField enter q = Some (Inr q')"
  shows "secondPass_add q' = spliced resolved q \<and> array_free (spliced resolved q)"
proof (cases q)
  case (Document ds)
  with assms(3) obtain ds' where
    "visitField_definitions enter ds = Some (Inr ds')" "q' = Document ds'"
    by (auto dest!: bind_Inr)
  with first_pass_spliced_definitions[OF assms(1), of ds ds'] assms(2) Document
  show ?thesis by simp
next
  case (Definition d)
  with assms(3) obtain d' where
    "visitField_definition enter d = Some (Inr d')" "q' = Definition d'"
    by (auto dest!: bind_Inr)
  with first_pass_spliced_definition[OF assms(1), of d d'] assms(2) Definition
  show ?thesis by simp
qed

text \<open>
  The first pass returns when every call it makes of the callback returns.
\<close>

lemma visitField_returns:
  "(\<forall>f. enters_node enter x f \<longrightarrow> (\<exists>r. enter f = Some (Inr r)))
     \<Longrightarrow> \<exists>x'. visitField_node enter x = Some (Inr x')"
  "(\<forall>f. enters_list enter xs f \<longrightarrow> (\<exists>r. enter f = Some (Inr r)))
     \<Longrightarrow> \<exists>xs'. visitField_list enter xs = Some (Inr xs')"
  "(\<forall>f. enters_set enter s f \<longrightarrow> (\<exists>r. enter f = Some (Inr r)))
     \<Longrightarrow> \<exists>s'. visitField_set enter s = Some (Inr s')"
proof (induction enter x and enter xs and enter s
        rule: visitField_node_visitField_list_visitField_set.induct)
  case (1 enter a n args ds ss)
  let ?f = "FieldNode a n args ds ss"
  from "1.prems" obtain r where r: "enter ?f = Some (Inr r)" by auto
  show ?case
  proof (cases r)
    case (Some array)
    with r show ?thesis by simp
  next
    case None
    show ?thesis
    proof (cases ss)
      case None
      with r \<open>r = None\<close> show ?thesis by simp
    next
      case (Some s)
      from "1.prems" r \<open>r = None\<close> Some
      have "\<forall>f. enters_set enter s f \<longrightarrow> (\<exists>r. enter f = Some (Inr r))" by auto
      from "1.IH"[OF Some this] r \<open>r = None\<close> Some show ?thesis by auto
    qed
  qed
next
  case (2 enter n ds)
  then show ?case by simp
next
  case (3 enter tc ds s)
  then show ?case by auto
next
  case (4 enter xs)
  then show ?case by auto
next
  case (5 enter)
  then show ?case by simp
next
  case (6 enter x xs)
  from "6.prems" have "\<forall>f. enters_node enter x f \<longrightarrow> (\<exists>r. enter f = Some (Inr r))" by auto
  from "6.IH"(1)[OF this] obtain x' where x': "visitField_node enter x = Some (Inr x')" by blast
  with "6.prems" have "\<forall>f. enters_list enter xs f \<longrightarrow> (\<exists>r. enter f = Some (Inr r))" by auto
  from "6.IH"(2)[OF this] x' show ?case by auto
next
  case (7 enter xs)
  then show ?case by auto
qed

lemma visitField_definition_returns:
  assumes "\<forall>f. enters_set enter (definition_selectionSet d) f \<longrightarrow> (\<exists>r. enter f = Some (Inr r))"
  shows "\<exists>d'. visitField_definition enter d = Some (Inr d')"
  using visitField_returns(3)[OF assms] by (cases d) auto

lemma visitField_definitions_returns:
  "(\<forall>f. enters_definitions enter ds f \<longrightarrow> (\<exists>r. enter f = Some (Inr r)))
     \<Longrightarrow> \<exists>ds'. visitField_definitions enter ds = Some (Inr ds')"
proof (induction ds)
  case Nil
  then show ?case by simp
next
  case (Cons d ds)
  from Cons.prems
  have "\<forall>f. enters_set enter (definition_selectionSet d) f \<longrightarrow> (\<exists>r. enter f = Some (Inr r))"
    by auto
  from visitField_definition_returns[OF this] obtain d' where
    d': "visitField_definition enter d = Some (Inr d')" by blast
  with Cons.prems have "\<forall>f. enters_definitions enter ds f \<longrightarrow> (\<exists>r. enter f = Some (Inr r))"
    by auto
  from Cons.IH[OF this] d' show ?case by auto
qed

lemma visitField_query_returns:
  assumes "\<forall>f. enters enter q f \<longrightarrow> (\<exists>r. enter f = Some (Inr r))"
  shows "\<exists>q'. visitField enter q = Some (Inr q')"
proof (cases q)
  case (Document ds)
  with assms visitField_definitions_returns[of enter ds] show ?thesis by auto
next
  case (Definition d)
  with assms visitField_definition_returns[of enter d] show ?thesis by auto
qed

text \<open>
  On a parsed query and a registry of parsed dependencies, the callback of augment-mode
  splices array-free selections, and the entry point returns an array-free tree.
\<close>

lemma Field_add_splices:
  assumes registry: "array_free_entities entities"
    and null: "self None = Some (Inr None)"
    and flat: "\<And>q r. array_free q \<Longrightarrow> self (Some q) = Some (Inr r) \<Longrightarrow> \<exists>t. r = Some t \<and> array_free t"
  shows "splices (Field_add self entities) (resolved_selections self entities)"
  unfolding splices_def
proof (intro allI conjI impI)
  fix f array
  assume enter: "Field_add self entities f = Some (Inr (Some array))"
  then show annotated: "nodeHasComputedDirectives (Some (SelectionN (Field f)))"
    by (auto simp: Field_add_def split: if_splits)
  with enter obtain fragment sels where
    resolved: "addFragmentToNode self entities f = Some (Inr fragment)"
    and sels: "fragment_selections fragment = Some (Inr sels)"
    and array: "array = Field f # sels"
    by (auto simp: Field_add_def dest!: bind_Inr)
  from resolved sels have same: "resolved_selections self entities f = sels"
    by (simp add: resolved_selections_def)
  with array show "array = Field f # resolved_selections self entities f" by simp
  from sels obtain d' where fragment: "fragment = Some (Definition d')"
    and sels': "sels = selections (definition_selectionSet d')"
    by (cases fragment rule: fragment_selections.cases) auto
  from resolved fragment obtain t entityType entityField where
    "entities t = Some entityType" "fields entityType (name f) = Some entityField"
    and call: "self (first_definition entityField) = Some (Inr fragment)"
    by (auto simp: addFragmentToNode_def Let_def read_property_def null
             split: sum.splits option.splits if_splits)
  with registry have deps: "\<forall>ds. dependencies entityField = Some ds \<longrightarrow> list_all array_free_definition ds"
    unfolding array_free_entities_def by blast
  from call fragment obtain d where first: "first_definition entityField = Some (Definition d)"
    by (cases "first_definition entityField")
       (auto simp: null first_definition_def split: option.splits list.splits)
  with deps have "array_free (Definition d)"
    by (auto simp: first_definition_def split: option.splits list.splits)
  from flat[OF this] call first fragment have "array_free_definition d'" by auto
  with sels' same show "list_all array_free_node (resolved_selections self entities f)"
    by (cases d'; cases "definition_selectionSet d'") auto
next
  fix f
  assume "Field_add self entities f = Some (Inr None)"
  then show "\<not> nodeHasComputedDirectives (Some (SelectionN (Field f)))"
    by (auto simp: Field_add_def dest!: bind_Inr split: if_splits)
qed

lemma augment_array_free:
  assumes registry: "array_free_entities entities"
  shows "array_free q \<Longrightarrow> addFragmentsFromDirectives fuel (Some q) entities = Some (Inr r)
     \<Longrightarrow> \<exists>t. r = Some t \<and> array_free t"
proof (induction fuel arbitrary: q r)
  case 0
  then show ?case by simp
next
  case (Suc n)
  let ?self = "\<lambda>fragment. addFragmentsFromDirectives n fragment entities"
  have "splices (Field_add ?self entities) (resolved_selections ?self entities)"
    by (rule Field_add_splices[OF registry]) (simp_all add: null_query Suc.IH)
  moreover from Suc.prems(2) obtain firstPass where
    "visitField (Field_add ?self entities) q = Some (Inr firstPass)"
    "r = Some (secondPass_add firstPass)"
    by (auto dest!: bind_Inr)
  ultimately show ?case
    using first_pass_spliced_query[OF _ Suc.prems(1)] by auto
qed

lemma augment_splices:
  assumes "array_free_entities entities"
  shows "splices (Field_add (\<lambda>fragment. addFragmentsFromDirectives fuel fragment entities) entities)
           (resolved_selections (\<lambda>fragment. addFragmentsFromDirectives fuel fragment entities) entities)"
  by (rule Field_add_splices[OF assms]) (simp_all add: null_query augment_array_free[OF assms])


text \<open>
  C5, as amended. In augment-mode, on a parsed query and a registry of parsed
  dependencies, the tree that the entry point returns is the query in which every
  annotated field node that the first pass enters - at any depth, in any definition of
  a document, everywhere but inside the sub-selection of another annotated field - is
  followed in its own selection set by the selections of its resolved dependency; the
  node itself is kept as it is, with its \<^verbatim>\<open>computed\<close> directive and its sub-selection.
  The entry point returns that tree whenever every call of the \<^verbatim>\<open>Field\<close> callback that
  the first pass makes returns. On an annotated node whose resolution succeeds the
  callback returns the list of the node itself followed by the selections of the
  resolved dependency. The second pass merges no fields and removes no directive: it
  returns an array-free tree as it is, and it keeps the directive nodes of any tree, in
  their order.
\<close>

theorem augment_splices_entered_fields:
  "(array_free query \<and> array_free_entities entities \<and>
    (\<forall>f. enters (Field_add (\<lambda>fragment. addFragmentsFromDirectives fuel fragment entities) entities)
            query f \<longrightarrow>
         (\<exists>r. Field_add (\<lambda>fragment. addFragmentsFromDirectives fuel fragment entities) entities f
                = Some (Inr r)))
      \<longrightarrow> addFragmentsFromDirectives (Suc fuel) (Some query) entities =
            Some (Inr (Some (spliced
              (resolved_selections (\<lambda>fragment. addFragmentsFromDirectives fuel fragment entities)
                 entities) query)))) \<and>
   (array_free query \<and> array_free_entities entities \<and>
    addFragmentsFromDirectives (Suc fuel) (Some query) entities = Some (Inr result)
      \<longrightarrow> result =
            Some (spliced
              (resolved_selections (\<lambda>fragment. addFragmentsFromDirectives fuel fragment entities)
                 entities) query)) \<and>
   (nodeHasComputedDirectives (Some (SelectionN (Field node))) \<and>
    addFragmentToNode self entities node = Some (Inr fragment) \<and>
    fragment_selections fragment = Some (Inr sels)
      \<longrightarrow> Field_add self entities node = Some (Inr (Some (Field node # sels))) \<and>
          spliced_node (resolved_selections self entities) (Field node) = Field node # sels) \<and>
   (array_free tree \<longrightarrow> secondPass_add tree = tree) \<and>
   all_directives (secondPass_add tree) = all_directives tree"
proof -
  let ?self = "\<lambda>fragment. addFragmentsFromDirectives fuel fragment entities"
  let ?enter = "Field_add ?self entities"
  let ?resolved = "resolved_selections ?self entities"
  have second: "addFragmentsFromDirectives (Suc fuel) (Some query) entities = Some (Inr r)
      \<Longrightarrow> r = Some (spliced ?resolved query)"
    if "array_free query" "array_free_entities entities" for r
  proof -
    assume "addFragmentsFromDirectives (Suc fuel) (Some query) entities = Some (Inr r)"
    then obtain firstPass where
      "visitField ?enter query = Some (Inr firstPass)" "r = Some (secondPass_add firstPass)"
      by (auto dest!: bind_Inr)
    with first_pass_spliced_query[OF augment_splices[OF that(2)] that(1)] show ?thesis
      by simp
  qed
  have 1: "addFragmentsFromDirectives (Suc fuel) (Some query) entities =
      Some (Inr (Some (spliced ?resolved query)))"
    if "array_free query" "array_free_entities entities"
      and "\<forall>f. enters ?enter query f \<longrightarrow> (\<exists>r. ?enter f = Some (Inr r))"
  proof -
    from visitField_query_returns[OF that(3)] obtain firstPass where
      "visitField ?enter query = Some (Inr firstPass)" by blast
    then have "addFragmentsFromDirectives (Suc fuel) (Some query) entities
        = Some (Inr (Some (secondPass_add firstPass)))"
      by simp
    with second[OF that(1,2)] show ?thesis by simp
  qed
  have 3: "Field_add self entities node = Some (Inr (Some (Field node # sels))) \<and>
      spliced_node (resolved_selections self entities) (Field node) = Field node # sels"
    if "nodeHasComputedDirectives (Some (SelectionN (Field node)))"
      and "addFragmentToNode self entities node = Some (Inr fragment)"
      and "fragment_selections fragment = Some (Inr sels)"
    using that by (cases node) (simp add: Field_add_def resolved_selections_def)
  have 4: "array_free tree \<longrightarrow> secondPass_add tree = tree"
    by (simp add: secondPass_add_query_array_free)
  have 5: "all_directives (secondPass_add tree) = all_directives tree"
    by (rule secondPass_add_query_directives)
  from 1 second 3 4 5 show ?thesis by blast
qed

theorem augment_splices_entered_fields_witness:
  "addFragmentsFromDirectives (Suc (Suc 0))
     (Some (nested_document (annotated ''fullName'' ''User''))) example_entities
   = Some (Inr (Some (spliced
       (resolved_selections (\<lambda>fragment. addFragmentsFromDirectives (Suc 0) fragment example_entities)
          example_entities)
       (nested_document (annotated ''fullName'' ''User''))))) \<and>
   spliced
     (resolved_selections (\<lambda>fragment. addFragmentsFromDirectives (Suc 0) fragment example_entities)
        example_entities)
     (nested_document (annotated ''fullName'' ''User''))
   = Document
       [FragmentDefinition ''names'' ''User'' [] (SelectionSet [leaf ''firstName'']),
        OperationDefinition Query None [] []
          (SelectionSet
             [leaf ''id'',
              InlineFragment (Some ''User'') []
                (SelectionSet
                   [FragmentSpread ''names'' [],
                    Field (FieldNode None ''profile'' [] []
                      (Some (SelectionSet
                         [Field (annotated ''fullName'' ''User''),
                          leaf ''firstName'', leaf ''lastName''])))])])] \<and>
   Field_add (\<lambda>fragment. addFragmentsFromDirectives (Suc 0) fragment example_entities)
     example_entities (annotated ''fullName'' ''User'')
   = Some (Inr (Some [Field (annotated ''fullName'' ''User''), leaf ''firstName'', leaf ''lastName''])) \<and>
   secondPass_add (example_query [leaf ''id'', leaf ''id'']) = example_query [leaf ''id'', leaf ''id''] \<and>
   secondPass_add_set (SelectionSet [Array [Array [leaf ''id'']]]) = SelectionSet [Array [leaf ''id'']]"
proof -
  let ?node = "annotated ''fullName'' ''User''"
  let ?query = "nested_document ?node"
  let ?self = "\<lambda>fragment. addFragmentsFromDirectives (Suc 0) fragment example_entities"
  let ?sels = "[leaf ''firstName'', leaf ''lastName'']"
  let ?fragment = "Some (Definition (FragmentDefinition ''dependencies'' ''User'' [] (SelectionSet ?sels)))"
  let ?tree = "example_query [leaf ''id'', leaf ''id'']"
  define enter where "enter = Field_add ?self example_entities"
  have 1: "array_free ?query"
    by (simp add: nested_document_def leaf_def annotated_def)
  have 2: "array_free_entities example_entities"
    by (rule example_entities_array_free)
  have plain: "enter (FieldNode None ''firstName'' [] [] None) = Some (Inr None)"
      "enter (FieldNode None ''id'' [] [] None) = Some (Inr None)"
      "enter (FieldNode None ''profile'' [] []
         (Some (SelectionSet [Field (FieldNode None ''fullName'' [] [computed ''User''] None)])))
       = Some (Inr None)"
    unfolding enter_def by code_simp+
  have spliced: "enter (FieldNode None ''fullName'' [] [computed ''User''] None)
      = Some (Inr (Some (Field ?node # ?sels)))"
    unfolding enter_def by code_simp
  have 3: "\<forall>f. enters enter ?query f \<longrightarrow> (\<exists>r. enter f = Some (Inr r))"
    using plain spliced by (auto simp: nested_document_def leaf_def annotated_def)
  have 4: "nodeHasComputedDirectives (Some (SelectionN (Field ?node)))"
    by code_simp
  have 5: "addFragmentToNode ?self example_entities ?node = Some (Inr ?fragment)"
    by code_simp
  have 6: "fragment_selections ?fragment = Some (Inr ?sels)"
    by simp
  have 7: "array_free ?tree"
    by (simp add: example_query_def leaf_def)
  have 8: "spliced (resolved_selections ?self example_entities) ?query
      = Document
       [FragmentDefinition ''names'' ''User'' [] (SelectionSet [leaf ''firstName'']),
        OperationDefinition Query None [] []
          (SelectionSet
             [leaf ''id'',
              InlineFragment (Some ''User'') []
                (SelectionSet
                   [FragmentSpread ''names'' [],
                    Field (FieldNode None ''profile'' [] []
                      (Some (SelectionSet
                         [Field (annotated ''fullName'' ''User''),
                          leaf ''firstName'', leaf ''lastName''])))])])]"
    by code_simp
  have 9: "secondPass_add_set (SelectionSet [Array [Array [leaf ''id'']]])
       = SelectionSet [Array [leaf ''id'']]"
    by code_simp
  note inst = augment_splices_entered_fields[where query = ?query and entities = example_entities
      and fuel = "Suc 0" and node = ?node and self = ?self and fragment = ?fragment
      and sels = ?sels and tree = ?tree
      and result = "Some (spliced (resolved_selections ?self example_entities) ?query)"]
  from inst 1 2 3[unfolded enter_def] 4 5 6 7 8 9 show ?thesis by blast
qed

text \<open>
  C5 as stated fails for an annotated field inside the sub-selection of an annotated
  field: in \<^verbatim>\<open>{ initials @computed(type: "User") { fullName @computed(type: "User") } }\<close>
  the inner \<^verbatim>\<open>fullName\<close> is never entered, so it stays alone in its selection set,
  without the selections \<^verbatim>\<open>firstName\<close> and \<^verbatim>\<open>lastName\<close> of its dependency.
\<close>

theorem augment_nested_counterexample:
  "addFragmentsFromDirectives 3
     (Some (example_query
        [Field (FieldNode None ''initials'' [] [computed ''User'']
           (Some (SelectionSet [Field (annotated ''fullName'' ''User'')])))]))
     example_entities
   = Some (Inr (Some (example_query
        [Field (FieldNode None ''initials'' [] [computed ''User'']
           (Some (SelectionSet [Field (annotated ''fullName'' ''User'')]))),
         Field (annotated ''fullName'' ''User''), leaf ''firstName'', leaf ''lastName'',
         leaf ''id''])))"
  by code_simp

end
